theory Spec2Isabelle
  imports Complex_Main "HOL-Library.Word" "HOL-Library.Multiset"
begin

section \<open>Fee suggestion (services/wallet/suggest_fees.go)\<close>

text \<open>
  The embedding follows \<^verbatim>\<open>suggest_fees.go\<close> function by function.

  Numbers.  A \<^verbatim>\<open>float64\<close> and a \<^verbatim>\<open>*big.Float\<close> are modelled by the real number they stand
  for.  Three kinds of arithmetic occur in the source, and the model treats them differently.

  \<^item> The conversions from integers are modelled exactly: \<^verbatim>\<open>(*big.Int).Uint64\<close> and
    \<^verbatim>\<open>(*big.Int).Int64\<close> keep the low 64 bits, and the conversion of a 64 bit integer to
    \<^verbatim>\<open>float64\<close> rounds to 53 significant bits, ties to even.

  \<^item> The \<^verbatim>\<open>big.Float\<close> arithmetic of \<^verbatim>\<open>SuggestFees\<close> is modelled exactly.  Every \<^verbatim>\<open>*big.Float\<close>
    of the file is made by \<^verbatim>\<open>big.NewFloat\<close>, hence has a mantissa of 53 bits and the rounding
    mode \<^verbatim>\<open>ToNearestEven\<close>; \<^verbatim>\<open>Add\<close>, \<^verbatim>\<open>Sub\<close>, \<^verbatim>\<open>Mul\<close> and \<^verbatim>\<open>Quo\<close> round the exact result to the
    precision of the receiver.  The exponent of a \<^verbatim>\<open>big.Float\<close> has 32 bits, which no value of
    this file exhausts, so the rounding is \<open>round53\<close> below, with an unbounded exponent.

  \<^item> The \<^verbatim>\<open>float64\<close> arithmetic of \<^verbatim>\<open>suggestBaseFee\<close> and \<^verbatim>\<open>samplingCurve\<close> (\<^verbatim>\<open>+\<close>, \<^verbatim>\<open>-\<close>, \<^verbatim>\<open>*\<close>,
    \<^verbatim>\<open>/\<close>, \<^verbatim>\<open>math.Exp\<close>, \<^verbatim>\<open>math.Cos\<close>) and the accumulation of the projected base fee are
    idealised: they are the exact real operations.  The source does not fix the last bits
    of \<^verbatim>\<open>math.Exp\<close> and \<^verbatim>\<open>math.Cos\<close>.  What the model calls the projected base fee is the
    value that the compiled code approximates to within a few units in the last place.
    The general theorems about \<^verbatim>\<open>SuggestFees\<close> below hold for whatever value the projector
    returns; the concrete histories are evaluated with the idealised projector.

  A decimal literal of the source and the same decimal in the JSON input denote the same
  \<^verbatim>\<open>float64\<close>, and both are modelled by the decimal itself.

  Failure.  An index out of range makes the Go program panic; the model returns
  \<open>Inl Panic\<close>.  An error returned by the RPC client is \<open>Inl (RpcError msg)\<close>.
  The pointers of the JSON result are taken to be non-nil.
\<close>

datatype error = RpcError string | Panic

record FeeHistoryResult =
  OldestBlock :: "64 word"
  Reward :: "nat list list"
  BaseFee :: "nat list"
  GasUsedRatio :: "real list"

record FeeSuggestion =
  MaxFeePerGas :: real
  MaxPriorityFeePerGas :: real

text \<open>
  \<^verbatim>\<open>s.rpcClient.Call(&result, "eth_feeHistory", blockCount, newestBlock, percentiles)\<close>:
  the client is a parameter of the model, a function of the three arguments of the call.
  The newest block is either the string \<^verbatim>\<open>"latest"\<close> or a block number printed with
  \<^verbatim>\<open>"0x%x"\<close>.
\<close>

datatype blockTag = Latest | BlockNumber "64 word"

type_synonym rpcClient = "nat \<Rightarrow> blockTag \<Rightarrow> nat list option \<Rightarrow> error + FeeHistoryResult"

subsection \<open>Integer conversions\<close>

definition Uint64 :: "nat \<Rightarrow> nat" where
  \<comment> \<open>\<^verbatim>\<open>(*big.Int).Uint64\<close> of a non-negative value: its low 64 bits.\<close>
  "Uint64 x = x mod 2 ^ 64"

definition Int64 :: "nat \<Rightarrow> int" where
  \<comment> \<open>\<^verbatim>\<open>(*big.Int).Int64\<close> of a non-negative value: its low 64 bits, read as two's complement.\<close>
  "Int64 x = (let u = int (x mod 2 ^ 64) in if u < 2 ^ 63 then u else u - 2 ^ 64)"

fun bitlen :: "nat \<Rightarrow> nat" where
  "bitlen n = (if n = 0 then 0 else Suc (bitlen (n div 2)))"

declare bitlen.simps [simp del]

definition float64 :: "nat \<Rightarrow> nat" where
  \<comment> \<open>\<^verbatim>\<open>float64(n)\<close> for an unsigned integer: 53 significant bits, round to nearest, ties to even.
      The result is again an integer.\<close>
  "float64 n =
     (if n < 2 ^ 53 then n
      else let k = bitlen n - 53; q = n div 2 ^ k; r = n mod 2 ^ k; h = 2 ^ (k - 1)
           in (if h < r \<or> (r = h \<and> odd q) then q + 1 else q) * 2 ^ k)"

definition float64_of_int :: "int \<Rightarrow> real" where
  \<comment> \<open>\<^verbatim>\<open>float64(i)\<close> for a signed integer: the magnitude is rounded, the sign is kept.\<close>
  "float64_of_int i = (if i < 0 then - real (float64 (nat (- i))) else real (float64 (nat i)))"

subsection \<open>Rounding of big.Float results\<close>

text \<open>
  \<open>rne\<close> rounds a real number to the nearest integer, ties to even.  \<open>round_at e x\<close> rounds
  \<open>x\<close> to a multiple of \<open>2\<^sup>e\<close>.  \<open>round53 x\<close> rounds \<open>x\<close> to 53 significant bits: for
  \<open>2\<^sup>L \<le> |x| < 2\<^sup>L\<^sup>+\<^sup>1\<close> the unit in the last place is \<open>2\<^sup>L\<^sup>-\<^sup>5\<^sup>2\<close>.
\<close>

definition rne :: "real \<Rightarrow> int" where
  "rne y =
     (let f = \<lfloor>y\<rfloor>; d = y - of_int f
      in if d < 1 / 2 then f else if 1 / 2 < d then f + 1 else if even f then f else f + 1)"

definition round_at :: "int \<Rightarrow> real \<Rightarrow> real" where
  "round_at e x = of_int (rne (x / 2 powr of_int e)) * 2 powr of_int e"

definition round53 :: "real \<Rightarrow> real" where
  \<comment> \<open>The value that \<^verbatim>\<open>z.Add\<close>, \<^verbatim>\<open>z.Sub\<close>, \<^verbatim>\<open>z.Mul\<close> or \<^verbatim>\<open>z.Quo\<close> stores in a \<^verbatim>\<open>z\<close> of precision 53
      when the exact result is \<open>x\<close>.\<close>
  "round53 x = (if x = 0 then 0 else round_at (\<lfloor>log 2 \<bar>x\<bar>\<rfloor> - 52) x)"

subsection \<open>samplingCurve\<close>

definition sampleMin :: real where "sampleMin = 0.1"
definition sampleMax :: real where "sampleMax = 0.3"

definition samplingCurve :: "real \<Rightarrow> real" where
  "samplingCurve sumWeight =
     (if sumWeight \<le> sampleMin then 0
      else if sumWeight \<ge> sampleMax then 1
      else (1 - cos ((sumWeight - sampleMin) * 2 * pi / (sampleMax - sampleMin))) / 2)"

subsection \<open>suggestBaseFee\<close>

text \<open>
  The loop of \<^verbatim>\<open>suggestBaseFee\<close> over \<^verbatim>\<open>order\<close>, with its three variables
  \<^verbatim>\<open>sumWeight\<close>, \<^verbatim>\<open>result\<close> and \<^verbatim>\<open>samplingCurveLast\<close>.  The list argument is the part
  of \<^verbatim>\<open>order\<close> not yet visited.
\<close>

fun suggestBaseFee_loop ::
  "real list \<Rightarrow> real \<Rightarrow> real \<Rightarrow> nat list \<Rightarrow> real \<Rightarrow> real \<Rightarrow> real \<Rightarrow> error + real" where
  "suggestBaseFee_loop baseFee timeFactor pendingWeight [] sumWeight result samplingCurveLast =
     Inr result"
| "suggestBaseFee_loop baseFee timeFactor pendingWeight (oi # rest) sumWeight result samplingCurveLast =
     (let sumWeight' = sumWeight
            + pendingWeight * exp ((real_of_int (int oi - int (length baseFee) + 1)) / timeFactor);
          samplingCurveValue = samplingCurve sumWeight'
      in if length baseFee \<le> oi then Inl Panic
         else let result' = result + (samplingCurveValue - samplingCurveLast) * (baseFee ! oi)
              in if samplingCurveValue \<ge> 1 then Inr result'
                 else suggestBaseFee_loop baseFee timeFactor pendingWeight rest
                        sumWeight' result' samplingCurveValue)"

definition suggestBaseFee :: "real list \<Rightarrow> nat list \<Rightarrow> real \<Rightarrow> error + real" where
  "suggestBaseFee baseFee order timeFactor =
     (if timeFactor < 1 / 10 ^ 6 then
        (if baseFee = [] then Inl Panic else Inr (baseFee ! (length baseFee - 1)))
      else
        let pendingWeight = (1 - exp (- 1 / timeFactor))
                          / (1 - exp (- real (length baseFee) / timeFactor))
        in suggestBaseFee_loop baseFee timeFactor pendingWeight order 0 0 0)"

subsection \<open>maxBlockCount and suggestTip\<close>

function maxBlockCount_loop :: "real list \<Rightarrow> int \<Rightarrow> int \<Rightarrow> int \<Rightarrow> error + int" where
  "maxBlockCount_loop gasUsedRatio ptr needBlocks blockCount =
     (if needBlocks > 0 \<and> ptr \<ge> 0 then
        (if int (length gasUsedRatio) \<le> ptr then Inl Panic
         else if gasUsedRatio ! nat ptr < 0.1 \<or> gasUsedRatio ! nat ptr > 0.9 then Inr blockCount
         else maxBlockCount_loop gasUsedRatio (ptr - 1) (needBlocks - 1) (blockCount + 1))
      else Inr blockCount)"
  by pat_completeness auto
termination
  by (relation "measure (\<lambda>(g, ptr, needBlocks, blockCount). nat needBlocks)") auto

declare maxBlockCount_loop.simps [simp del]

definition maxBlockCount :: "real list \<Rightarrow> int \<Rightarrow> int \<Rightarrow> error + int" where
  "maxBlockCount gasUsedRatio ptr needBlocks = maxBlockCount_loop gasUsedRatio ptr needBlocks 0"

text \<open>
  \<^verbatim>\<open>for i := range feeHistory.Reward { rewards = append(rewards, feeHistory.Reward[i][0]) }\<close>
\<close>

fun append_rewards :: "nat list \<Rightarrow> nat list list \<Rightarrow> error + nat list" where
  "append_rewards rewards [] = Inr rewards"
| "append_rewards rewards (row # rows) =
     (case row of [] \<Rightarrow> Inl Panic | r # _ \<Rightarrow> append_rewards (rewards @ [r]) rows)"

text \<open>
  The loop of \<^verbatim>\<open>suggestTip\<close>, with its variables \<^verbatim>\<open>needBlocks\<close>, \<^verbatim>\<open>ptr\<close> and \<^verbatim>\<open>rewards\<close>.
  It returns the samples collected when the loop is left, by its condition or by \<^verbatim>\<open>break\<close>.
\<close>

function suggestTip_loop ::
  "rpcClient \<Rightarrow> 64 word \<Rightarrow> real list \<Rightarrow> int \<Rightarrow> int \<Rightarrow> nat list \<Rightarrow> error + nat list" where
  "suggestTip_loop rpc firstBlock gasUsedRatio needBlocks ptr rewards =
     (if needBlocks > 0 \<and> ptr \<ge> 0 then
        (case maxBlockCount gasUsedRatio ptr needBlocks of
           Inl e \<Rightarrow> Inl e
         | Inr blockCount \<Rightarrow>
             if blockCount > 0 then
               (case rpc (nat blockCount) (BlockNumber (firstBlock + word_of_int ptr)) (Some [10]) of
                  Inl err \<Rightarrow> Inl err
                | Inr feeHistory \<Rightarrow>
                    (case append_rewards rewards (Reward feeHistory) of
                       Inl e \<Rightarrow> Inl e
                     | Inr rewards' \<Rightarrow>
                         if int (length (Reward feeHistory)) < blockCount then Inr rewards'
                         else suggestTip_loop rpc firstBlock gasUsedRatio
                                (needBlocks - blockCount) (ptr - (blockCount + 1)) rewards'))
             else suggestTip_loop rpc firstBlock gasUsedRatio
                    needBlocks (ptr - (blockCount + 1)) rewards)
      else Inr rewards)"
  by pat_completeness auto
termination
proof (relation "measure (\<lambda>(rpc, fb, g, needBlocks, ptr, rewards). nat (ptr + 1))", goal_cases)
  case 1
  show ?case by simp
next
  case (2 rpc fb g need ptr rewards bc fh rewards')
  then show ?case by simp
next
  case (3 rpc fb g need ptr rewards bc)
  have ge: "maxBlockCount_loop g' p n c = Inr k \<Longrightarrow> c \<le> k" for g' p n c k
  proof (induction g' p n c rule: maxBlockCount_loop.induct)
    case (1 g' p n c)
    show ?case
    proof (cases "n > 0 \<and> p \<ge> 0 \<and> \<not> int (length g') \<le> p
                  \<and> \<not> (g' ! nat p < 0.1 \<or> g' ! nat p > 0.9)")
      case True
      with "1.prems" have "maxBlockCount_loop g' (p - 1) (n - 1) (c + 1) = Inr k"
        by (subst (asm) maxBlockCount_loop.simps) (simp split: if_splits)
      with True "1.IH" have "c + 1 \<le> k" by simp
      then show ?thesis by simp
    next
      case False
      with "1.prems" show ?thesis
        by (subst (asm) maxBlockCount_loop.simps) (auto split: if_splits)
    qed
  qed
  from 3(2) have "0 \<le> bc" unfolding maxBlockCount_def by (rule ge)
  with 3(1) show ?case by simp
qed

declare suggestTip_loop.simps [simp del]

definition suggestTip :: "rpcClient \<Rightarrow> 64 word \<Rightarrow> real list \<Rightarrow> error + nat" where
  "suggestTip rpc firstBlock gasUsedRatio =
     (case suggestTip_loop rpc firstBlock gasUsedRatio 5 (int (length gasUsedRatio) - 1) [] of
        Inl err \<Rightarrow> Inl err
      | Inr rewards \<Rightarrow>
          if length rewards = 0 then Inr 5000000000
          else Inr (sort rewards ! (length rewards div 2)))"

subsection \<open>SuggestFees\<close>

text \<open>
  \<^verbatim>\<open>for i := len(result.GasUsedRatio) - 1; i >= 0; i-- { if result.GasUsedRatio[i] > 0.9 {
  baseFees[i] = copy of baseFees[i+1] } }\<close>.  The counter of the model is \<open>i + 1\<close>.
\<close>

fun propagate :: "real list \<Rightarrow> nat \<Rightarrow> real list \<Rightarrow> error + real list" where
  "propagate gasUsedRatio 0 baseFees = Inr baseFees"
| "propagate gasUsedRatio (Suc i) baseFees =
     (if gasUsedRatio ! i > 0.9 then
        (if length baseFees \<le> i + 1 then Inl Panic
         else propagate gasUsedRatio i (baseFees[i := baseFees ! (i + 1)]))
      else propagate gasUsedRatio i baseFees)"

text \<open>
  The loop over \<^verbatim>\<open>timeFactor\<close> from 15 down to 0; the counter of the model is
  \<open>timeFactor + 1\<close>.  \<^verbatim>\<open>response\<close> is a slice of pointers, \<^verbatim>\<open>nil\<close> until assigned.
  \<^verbatim>\<open>tempMaxBaseFee.Sub\<close>, \<^verbatim>\<open>tempMaxBaseFee.Mul\<close>, \<^verbatim>\<open>t.Add\<close> and the \<^verbatim>\<open>Add\<close> of the response each
  round their result.
\<close>

definition extraTipRatio :: real where "extraTipRatio = 0.25"

fun ladder_loop ::
  "real list \<Rightarrow> nat list \<Rightarrow> int \<Rightarrow> nat \<Rightarrow> real \<Rightarrow> FeeSuggestion option list
     \<Rightarrow> error + FeeSuggestion option list" where
  "ladder_loop baseFees order tip 0 maxBaseFee response = Inr response"
| "ladder_loop baseFees order tip (Suc timeFactor) maxBaseFee response =
     (case suggestBaseFee baseFees order (real timeFactor) of
        Inl e \<Rightarrow> Inl e
      | Inr bf \<Rightarrow>
          let t = float64_of_int tip in
          if bf > maxBaseFee then
            ladder_loop baseFees order tip timeFactor bf
              (response[timeFactor :=
                 Some \<lparr>MaxFeePerGas = round53 (bf + t), MaxPriorityFeePerGas = t\<rparr>])
          else
            let tempMaxBaseFee = round53 (maxBaseFee - bf);
                tempMaxBaseFee' = round53 (tempMaxBaseFee * extraTipRatio);
                t' = round53 (t + tempMaxBaseFee');
                bf' = maxBaseFee
            in ladder_loop baseFees order tip timeFactor maxBaseFee
                 (response[timeFactor :=
                    Some \<lparr>MaxFeePerGas = round53 (bf' + t'), MaxPriorityFeePerGas = t'\<rparr>]))"

definition convert_baseFees :: "nat list \<Rightarrow> real list" where
  \<comment> \<open>\<^verbatim>\<open>baseFees = append(baseFees, big.NewFloat(float64((*big.Int)(e).Uint64())))\<close>\<close>
  "convert_baseFees es = map (\<lambda>e. real (float64 (Uint64 e))) es"

definition working_baseFees :: "FeeHistoryResult \<Rightarrow> error + real list" where
  \<comment> \<open>Lines 33 to 51: the conversion of \<^verbatim>\<open>result.BaseFee\<close>, the last element times 9 and
      then divided by 8, each with its rounding (\<^verbatim>\<open>baseFees[len(baseFees)-1]\<close> panics on an
      empty slice), and the copy of the next base fee into every full block.\<close>
  "working_baseFees result =
     (let baseFees0 = convert_baseFees (BaseFee result)
      in if baseFees0 = [] then Inl Panic
         else
           let lastIndex = length baseFees0 - 1;
               baseFees1 = baseFees0[lastIndex :=
                             round53 (round53 (baseFees0 ! lastIndex * 9) / 8)]
           in propagate (GasUsedRatio result) (length (GasUsedRatio result)) baseFees1)"

definition sorted_order :: "real list \<Rightarrow> nat list" where
  \<comment> \<open>Lines 34 to 38 and 53 to 55: \<^verbatim>\<open>order\<close> holds the indices of \<^verbatim>\<open>baseFees\<close>, sorted with
      \<^verbatim>\<open>sort.SliceStable\<close> by ascending base fee.  A stable sort has one result only; HOL's
      \<open>sort_key\<close> is stable.\<close>
  "sorted_order baseFees = sort_key (\<lambda>i. baseFees ! i) [0..<length baseFees]"

definition SuggestFees :: "rpcClient \<Rightarrow> error + FeeSuggestion option list" where
  "SuggestFees rpc =
     (case rpc 100 Latest None of
        Inl err \<Rightarrow> Inl err
      | Inr result \<Rightarrow>
          (case working_baseFees result of
             Inl e \<Rightarrow> Inl e
           | Inr baseFees \<Rightarrow>
               let order = sorted_order baseFees
               in (case suggestTip rpc (OldestBlock result) (GasUsedRatio result) of
                     Inl err \<Rightarrow> Inl err
                   | Inr tip \<Rightarrow>
                       ladder_loop baseFees order (Int64 tip) 16 0 (replicate 16 None))))"

subsection \<open>The loop of SuggestFees, seen from outside\<close>

text \<open>
  The value of the variable \<^verbatim>\<open>maxBaseFee\<close> after the first \<open>k\<close> iterations of the loop,
  that is after \<^verbatim>\<open>timeFactor\<close> = 15, ..., 16 - k.  Before the iteration for \<^verbatim>\<open>timeFactor\<close> = t
  it is \<open>maxBaseFee_after baseFees order (15 - t)\<close>.
\<close>

fun maxBaseFee_after :: "real list \<Rightarrow> nat list \<Rightarrow> nat \<Rightarrow> real" where
  "maxBaseFee_after baseFees order 0 = 0"
| "maxBaseFee_after baseFees order (Suc k) =
     (let maxBaseFee = maxBaseFee_after baseFees order k
      in case suggestBaseFee baseFees order (real (15 - k)) of
           Inl e \<Rightarrow> maxBaseFee
         | Inr bf \<Rightarrow> if bf > maxBaseFee then bf else maxBaseFee)"

text \<open>
  The suggestion that one iteration stores, from the tip \<open>t\<close>, the value of \<^verbatim>\<open>maxBaseFee\<close>
  before the iteration and the projected base fee \<open>bf\<close>.
\<close>

definition dip_tip :: "real \<Rightarrow> real \<Rightarrow> real \<Rightarrow> real" where
  \<comment> \<open>The value of \<^verbatim>\<open>t\<close> after the \<^verbatim>\<open>else\<close> branch (lines 85 to 88).\<close>
  "dip_tip t maxBaseFee bf = round53 (t + round53 (round53 (maxBaseFee - bf) * extraTipRatio))"

definition ladder_entry :: "real \<Rightarrow> real \<Rightarrow> real \<Rightarrow> FeeSuggestion" where
  "ladder_entry t maxBaseFee bf =
     (if bf > maxBaseFee then \<lparr>MaxFeePerGas = round53 (bf + t), MaxPriorityFeePerGas = t\<rparr>
      else \<lparr>MaxFeePerGas = round53 (maxBaseFee + dip_tip t maxBaseFee bf),
            MaxPriorityFeePerGas = dip_tip t maxBaseFee bf\<rparr>)"

subsection \<open>Reference notions and concrete inputs\<close>

definition lower_median :: "nat list \<Rightarrow> nat" where
  \<comment> \<open>The lower median in the usual sense: of the two middle elements of an even-length
      sample, the smaller one.\<close>
  "lower_median xs = sort xs ! ((length xs - 1) div 2)"

definition rpc_four :: rpcClient where
  \<comment> \<open>A client that answers every call with the four reward rows 1, 3, 5, 7.\<close>
  "rpc_four blockCount newestBlock percentiles =
     Inr \<lparr>OldestBlock = 0, Reward = [[1], [3], [5], [7]], BaseFee = [], GasUsedRatio = []\<rparr>"

definition rpc_jump :: rpcClient where
  \<comment> \<open>A client whose history has three base fees, 1000, 9000 and 8000 wei, and two nearly
      empty blocks, so that no reward is fetched.\<close>
  "rpc_jump blockCount newestBlock percentiles =
     Inr \<lparr>OldestBlock = 0, Reward = [], BaseFee = [1000, 9000, 8000],
          GasUsedRatio = [1 / 20, 1 / 20]\<rparr>"

definition rpc_short_ratios :: rpcClient where
  \<comment> \<open>A client whose history breaks the shape invariant: three base fees, no gas ratio.\<close>
  "rpc_short_ratios blockCount newestBlock percentiles =
     Inr \<lparr>OldestBlock = 0, Reward = [], BaseFee = [1000, 9000, 8000], GasUsedRatio = []\<rparr>"

definition rpc_reward :: "nat \<Rightarrow> rpcClient" where
  \<comment> \<open>A client whose history has two base fees of 8 wei, one half-full block, and the
      given reward for it.\<close>
  "rpc_reward r blockCount newestBlock percentiles =
     Inr \<lparr>OldestBlock = 0, Reward = [[r]], BaseFee = [8, 8], GasUsedRatio = [1 / 2]\<rparr>"

definition rpc_empty :: rpcClient where
  \<comment> \<open>A client whose history is empty.\<close>
  "rpc_empty blockCount newestBlock percentiles =
     Inr \<lparr>OldestBlock = 0, Reward = [], BaseFee = [], GasUsedRatio = []\<rparr>"

definition rpc_fail :: rpcClient where
  \<comment> \<open>A client whose every call fails.\<close>
  "rpc_fail blockCount newestBlock percentiles = Inl (RpcError ''connection refused'')"

text \<open>
  \<^verbatim>\<open>out[t].maxFeePerGas\<close> and \<^verbatim>\<open>out[t].maxPriorityFeePerGas\<close> of the result of \<^verbatim>\<open>SuggestFees\<close>;
  \<open>None\<close> when no ladder is returned or the entry is \<^verbatim>\<open>nil\<close>.
\<close>

definition maxFee_at :: "error + FeeSuggestion option list \<Rightarrow> nat \<Rightarrow> real option" where
  "maxFee_at res t =
     (case res of
        Inl e \<Rightarrow> None
      | Inr out \<Rightarrow> (case out ! t of None \<Rightarrow> None | Some e \<Rightarrow> Some (MaxFeePerGas e)))"

definition maxPriorityFee_at :: "error + FeeSuggestion option list \<Rightarrow> nat \<Rightarrow> real option" where
  "maxPriorityFee_at res t =
     (case res of
        Inl e \<Rightarrow> None
      | Inr out \<Rightarrow> (case out ! t of None \<Rightarrow> None | Some e \<Rightarrow> Some (MaxPriorityFeePerGas e)))"

section \<open>Rounding to 53 bits\<close>

text \<open>
  Rounding to the nearest integer is monotone and leaves integers alone; so is rounding to
  53 bits, which leaves alone every \<open>j * 2\<^sup>e\<close> with \<open>0 < j \<le> 2\<^sup>5\<^sup>3\<close>.
\<close>

lemma rne_of_int: "rne (of_int m) = m"
  by (simp add: rne_def)

lemma rne_bounds: "\<lfloor>y\<rfloor> \<le> rne y \<and> rne y \<le> \<lfloor>y\<rfloor> + 1"
  by (simp add: rne_def Let_def)

lemma rne_mono:
  assumes "y \<le> y'"
  shows "rne y \<le> rne y'"
proof (cases "\<lfloor>y\<rfloor> = \<lfloor>y'\<rfloor>")
  case True
  have "y - of_int \<lfloor>y\<rfloor> \<le> y' - of_int \<lfloor>y'\<rfloor>"
    using assms True by simp
  then show ?thesis
    using True by (auto simp: rne_def Let_def)
next
  case False
  have "\<lfloor>y\<rfloor> \<le> \<lfloor>y'\<rfloor>"
    using assms by (rule floor_mono)
  with False have "\<lfloor>y\<rfloor> + 1 \<le> \<lfloor>y'\<rfloor>" by simp
  with rne_bounds [of y] rne_bounds [of y'] show ?thesis by linarith
qed

lemma round_at_exact: "round_at e (of_int m * 2 powr of_int e) = of_int m * 2 powr of_int e"
  by (simp add: round_at_def rne_of_int)

lemma round_at_mono:
  assumes "x \<le> y"
  shows "round_at e x \<le> round_at e y"
proof -
  have "x / 2 powr of_int e \<le> y / 2 powr of_int e"
    using assms by (intro divide_right_mono) simp_all
  then have "rne (x / 2 powr of_int e) \<le> rne (y / 2 powr of_int e)"
    by (rule rne_mono)
  then have "(of_int (rne (x / 2 powr of_int e)) :: real) \<le> of_int (rne (y / 2 powr of_int e))"
    by simp
  then show ?thesis
    unfolding round_at_def by (intro mult_right_mono) simp_all
qed

lemma binade:
  assumes "0 < x"
  shows "2 powr of_int \<lfloor>log 2 x\<rfloor> \<le> x \<and> x < 2 powr of_int (\<lfloor>log 2 x\<rfloor> + 1)"
proof -
  have "\<lfloor>log 2 x\<rfloor> = \<lfloor>log 2 x\<rfloor>" ..
  then show ?thesis
    using floor_log_eq_powr_iff [of x 2 "\<lfloor>log 2 x\<rfloor>"] assms by simp
qed

lemma two_powr_shift: "2 powr of_int (a + b) = 2 powr of_int a * (2::real) powr of_int b"
  by (simp add: powr_add)

lemma two_powr_52: "(2::real) powr of_int 52 = 2 ^ 52" and two_powr_53: "(2::real) powr of_int 53 = 2 ^ 53"
  using powr_realpow [of "2::real" 52] powr_realpow [of "2::real" 53] by simp_all

text \<open>A positive number is rounded within its binade.\<close>

lemma round53_binade:
  assumes "0 < x"
  defines "L \<equiv> \<lfloor>log 2 x\<rfloor>"
  shows "2 powr of_int L \<le> round53 x \<and> round53 x \<le> 2 powr of_int (L + 1)"
proof -
  have b: "2 powr of_int L \<le> x" "x < 2 powr of_int (L + 1)"
    using binade [OF assms(1)] by (simp_all add: L_def)
  have r: "round53 x = round_at (L - 52) x"
    using assms(1) by (simp add: round53_def L_def)
  have lo: "(2::real) powr of_int L = of_int (2 ^ 52) * 2 powr of_int (L - 52)"
  proof -
    have "L = 52 + (L - 52)" by simp
    then have "(2::real) powr of_int L = 2 powr of_int (52 + (L - 52))" by (rule arg_cong)
    also have "\<dots> = 2 powr of_int 52 * 2 powr of_int (L - 52)" by (rule two_powr_shift)
    finally show ?thesis by (simp add: two_powr_52)
  qed
  have hi: "(2::real) powr of_int (L + 1) = of_int (2 ^ 53) * 2 powr of_int (L - 52)"
  proof -
    have "L + 1 = 53 + (L - 52)" by simp
    then have "(2::real) powr of_int (L + 1) = 2 powr of_int (53 + (L - 52))" by (rule arg_cong)
    also have "\<dots> = 2 powr of_int 53 * 2 powr of_int (L - 52)" by (rule two_powr_shift)
    finally show ?thesis by (simp add: two_powr_53)
  qed
  have "round_at (L - 52) (2 powr of_int L) \<le> round_at (L - 52) x"
    using b(1) by (rule round_at_mono)
  then have one: "2 powr of_int L \<le> round_at (L - 52) x"
    unfolding lo by (simp only: round_at_exact)
  have "round_at (L - 52) x \<le> round_at (L - 52) (2 powr of_int (L + 1))"
    using b(2) by (intro round_at_mono) simp
  then have two: "round_at (L - 52) x \<le> 2 powr of_int (L + 1)"
    unfolding hi by (simp only: round_at_exact)
  from one two r show ?thesis by simp
qed

lemma round53_nonneg: "0 \<le> x \<Longrightarrow> 0 \<le> round53 x"
proof (cases "x = 0")
  case True
  then show ?thesis by (simp add: round53_def)
next
  case False
  assume "0 \<le> x"
  with False have "0 < x" by simp
  from round53_binade [OF this] have "2 powr of_int \<lfloor>log 2 x\<rfloor> \<le> round53 x" by simp
  moreover have "(0::real) < 2 powr of_int \<lfloor>log 2 x\<rfloor>" by simp
  ultimately show ?thesis by linarith
qed

lemma round53_mono_pos:
  assumes "0 < x" and "x \<le> y"
  shows "round53 x \<le> round53 y"
proof -
  have ypos: "0 < y" using assms by linarith
  let ?Lx = "\<lfloor>log 2 x\<rfloor>" and ?Ly = "\<lfloor>log 2 y\<rfloor>"
  have "log 2 x \<le> log 2 y" using assms by simp
  then have le: "?Lx \<le> ?Ly" by (rule floor_mono)
  show ?thesis
  proof (cases "?Lx = ?Ly")
    case True
    have "round53 x = round_at (?Lx - 52) x" using assms(1) by (simp add: round53_def)
    moreover have "round53 y = round_at (?Lx - 52) y" using ypos True by (simp add: round53_def)
    ultimately show ?thesis using round_at_mono [OF assms(2)] by simp
  next
    case False
    with le have "?Lx + 1 \<le> ?Ly" by simp
    then have "(2::real) powr of_int (?Lx + 1) \<le> 2 powr of_int ?Ly"
      by (intro powr_mono) simp_all
    with round53_binade [OF assms(1)] round53_binade [OF ypos] show ?thesis by linarith
  qed
qed

lemma round53_zero: "round53 0 = 0"
  by (simp add: round53_def)

lemma round53_mono_nonneg:
  assumes "0 \<le> x" and "x \<le> y"
  shows "round53 x \<le> round53 y"
proof (cases "x = 0")
  case True
  with assms round53_nonneg [of y] show ?thesis by (simp add: round53_zero)
next
  case False
  with assms(1) have "0 < x" by simp
  then show ?thesis using assms(2) by (rule round53_mono_pos)
qed

lemma round53_pos: "0 < x \<Longrightarrow> round53 x = round_at (\<lfloor>log 2 x\<rfloor> - 52) x"
proof -
  assume "0 < x"
  then have "x \<noteq> 0" "\<bar>x\<bar> = x" by simp_all
  then show ?thesis unfolding round53_def by (simp only: if_False)
qed

lemma round53_exact:
  assumes "0 < j" and "j \<le> 2 ^ 53"
  shows "round53 (of_int j * 2 powr of_int e) = of_int j * 2 powr of_int e"
proof -
  define x :: real where "x = of_int j * 2 powr of_int e"
  define L where "L = \<lfloor>log 2 x\<rfloor>"
  have xpos: "0 < x" using assms(1) by (simp add: x_def)
  have b: "2 powr of_int L \<le> x" using binade [OF xpos] by (simp add: L_def)
  have r: "round53 x = round_at (L - 52) x"
    unfolding L_def by (rule round53_pos [OF xpos])
  have top: "x \<le> 2 powr of_int (e + 53)"
  proof -
    have "(of_int j :: real) \<le> of_int (2 ^ 53)" using assms(2) by (simp only: of_int_le_iff)
    then have "x \<le> of_int (2 ^ 53) * 2 powr of_int e"
      unfolding x_def by (intro mult_right_mono) simp_all
    also have "\<dots> = 2 powr of_int 53 * 2 powr of_int e" by (simp add: two_powr_53)
    also have "\<dots> = 2 powr of_int (53 + e)" by (rule two_powr_shift [symmetric])
    finally show ?thesis by (simp add: add.commute)
  qed
  have "round_at (L - 52) x = x"
  proof (cases "x = 2 powr of_int (e + 53)")
    case True
    have "log 2 x = of_int (e + 53)" unfolding True by simp
    then have "L = e + 53" unfolding L_def by simp
    then have Le: "L - 52 = e + 1" by simp
    have "2 powr of_int (e + 53) = (2::real) powr of_int (52 + (e + 1))"
      by (rule arg_cong) simp
    also have "\<dots> = 2 powr of_int 52 * 2 powr of_int (e + 1)" by (rule two_powr_shift)
    finally have "2 powr of_int (e + 53) = of_int (2 ^ 52) * (2::real) powr of_int (e + 1)"
      by (simp add: two_powr_52)
    then have xe: "x = of_int (2 ^ 52) * 2 powr of_int (e + 1)"
      using True by (rule trans [rotated])
    have "round_at (e + 1) (of_int (2 ^ 52) * 2 powr of_int (e + 1))
          = of_int (2 ^ 52) * 2 powr of_int (e + 1)"
      by (rule round_at_exact)
    then show ?thesis
      unfolding Le by (simp only: xe [symmetric])
  next
    case False
    with top have "x < 2 powr of_int (e + 53)" by simp
    with b have "(2::real) powr of_int L < 2 powr of_int (e + 53)" by linarith
    then have "L < e + 53" by simp
    then have k: "0 \<le> e - (L - 52)" by simp
    define n where "n = nat (e - (L - 52))"
    have e: "e = int n + (L - 52)" using k by (simp add: n_def)
    have "(2::real) powr of_int e = 2 powr of_int (int n + (L - 52))"
      by (rule arg_cong) (rule e)
    also have "\<dots> = 2 powr of_int (int n) * 2 powr of_int (L - 52)" by (rule two_powr_shift)
    also have "\<dots> = 2 ^ n * 2 powr of_int (L - 52)" by (simp add: powr_realpow)
    finally have pe: "(2::real) powr of_int e = 2 ^ n * 2 powr of_int (L - 52)" .
    have "x = of_int j * (2 ^ n * 2 powr of_int (L - 52))"
      unfolding x_def by (simp only: pe)
    also have "\<dots> = of_int (j * 2 ^ n) * 2 powr of_int (L - 52)"
      by (simp only: of_int_mult of_int_power of_int_numeral mult.assoc)
    finally have xe: "x = of_int (j * 2 ^ n) * 2 powr of_int (L - 52)" .
    have "round_at (L - 52) (of_int (j * 2 ^ n) * 2 powr of_int (L - 52))
          = of_int (j * 2 ^ n) * 2 powr of_int (L - 52)"
      by (rule round_at_exact)
    then show ?thesis
      by (simp only: xe [symmetric])
  qed
  with r show ?thesis by (simp add: x_def)
qed

lemma round53_of_nat_scaled:
  assumes "m \<le> 2 ^ 53"
  shows "round53 (real m * 2 ^ k) = real m * 2 ^ k"
proof (cases "m = 0")
  case True
  then show ?thesis by (simp add: round53_zero)
next
  case False
  then have "0 < int m" by simp
  moreover have "int m \<le> 2 ^ 53" using assms by (metis of_nat_le_iff of_nat_numeral of_nat_power)
  ultimately have "round53 (of_int (int m) * 2 powr of_int (int k)) = of_int (int m) * 2 powr of_int (int k)"
    by (rule round53_exact)
  then show ?thesis by (simp add: powr_realpow)
qed

lemma round53_of_nat: "m \<le> 2 ^ 53 \<Longrightarrow> round53 (real m) = real m"
  using round53_of_nat_scaled [of m 0] by simp

lemma round53_idem:
  assumes "0 \<le> x"
  shows "round53 (round53 x) = round53 x"
proof (cases "x = 0")
  case True
  then show ?thesis by (simp add: round53_zero)
next
  case False
  with assms have xpos: "0 < x" by simp
  let ?e = "\<lfloor>log 2 x\<rfloor> - 52"
  let ?j = "rne (x / 2 powr of_int ?e)"
  have r: "round53 x = of_int ?j * 2 powr of_int ?e"
    using round53_pos [OF xpos] by (simp only: round_at_def)
  have b: "2 powr of_int \<lfloor>log 2 x\<rfloor> \<le> x" "x < 2 powr of_int (\<lfloor>log 2 x\<rfloor> + 1)"
    using binade [OF xpos] by simp_all
  have s: "(2::real) powr of_int \<lfloor>log 2 x\<rfloor> = 2 ^ 52 * 2 powr of_int ?e"
  proof -
    have "\<lfloor>log 2 x\<rfloor> = 52 + ?e" by simp
    then have "(2::real) powr of_int \<lfloor>log 2 x\<rfloor> = 2 powr of_int (52 + ?e)" by (rule arg_cong)
    also have "\<dots> = 2 powr of_int 52 * 2 powr of_int ?e" by (rule two_powr_shift)
    finally show ?thesis by (simp add: two_powr_52)
  qed
  have s': "(2::real) powr of_int (\<lfloor>log 2 x\<rfloor> + 1) = 2 ^ 53 * 2 powr of_int ?e"
  proof -
    have "\<lfloor>log 2 x\<rfloor> + 1 = 53 + ?e" by simp
    then have "(2::real) powr of_int (\<lfloor>log 2 x\<rfloor> + 1) = 2 powr of_int (53 + ?e)" by (rule arg_cong)
    also have "\<dots> = 2 powr of_int 53 * 2 powr of_int ?e" by (rule two_powr_shift)
    finally show ?thesis by (simp add: two_powr_53)
  qed
  have "of_int (2 ^ 52) \<le> x / 2 powr of_int ?e"
    using b(1) unfolding s by (simp add: pos_le_divide_eq)
  then have "rne (of_int (2 ^ 52)) \<le> ?j" by (rule rne_mono)
  then have jlo: "2 ^ 52 \<le> ?j" by (simp only: rne_of_int)
  have "x / 2 powr of_int ?e \<le> of_int (2 ^ 53)"
    using b(2) unfolding s' by (simp add: pos_divide_le_eq)
  then have "?j \<le> rne (of_int (2 ^ 53))" by (rule rne_mono)
  then have jhi: "?j \<le> 2 ^ 53" by (simp only: rne_of_int)
  have "0 < ?j" using jlo by (rule less_le_trans [rotated]) simp
  from round53_exact [OF this jhi, of ?e] r show ?thesis by simp
qed

lemma round53_numeral: "(numeral k :: nat) \<le> 2 ^ 53 \<Longrightarrow> round53 (numeral k) = numeral k"
  using round53_of_nat [of "numeral k"] by simp

lemma round53_ge_numeral:
  assumes "(numeral k :: nat) \<le> 2 ^ 53" and "numeral k \<le> x"
  shows "numeral k \<le> round53 x"
proof -
  have "round53 (real (numeral k)) \<le> round53 x"
    using assms(2) by (intro round53_mono_nonneg) simp_all
  then show ?thesis
    using round53_of_nat [OF assms(1)] by simp
qed

lemma bitlen_bound: "n < 2 ^ bitlen n"
proof (induction n rule: bitlen.induct)
  case (1 n)
  show ?case
  proof (cases "n = 0")
    case True
    then show ?thesis by simp
  next
    case False
    with 1 have "n div 2 < 2 ^ bitlen (n div 2)" by simp
    then have "n < 2 * 2 ^ bitlen (n div 2)" by linarith
    moreover have "bitlen n = Suc (bitlen (n div 2))"
      using False by (subst bitlen.simps) simp
    ultimately show ?thesis by simp
  qed
qed

lemma float64_round53: "round53 (real (float64 n)) = real (float64 n)"
proof (cases "n < 2 ^ 53")
  case True
  then show ?thesis by (simp add: float64_def round53_of_nat)
next
  case False
  define k where "k = bitlen n - 53"
  define q where "q = n div 2 ^ k"
  define m where "m = (if 2 ^ (k - 1) < n mod 2 ^ k \<or> (n mod 2 ^ k = 2 ^ (k - 1) \<and> odd q)
                       then q + 1 else q)"
  have f: "float64 n = m * 2 ^ k"
    using False by (simp add: float64_def Let_def m_def q_def k_def)
  have "(2::nat) ^ 53 \<le> n" using False by simp
  also have "n < 2 ^ bitlen n" by (rule bitlen_bound)
  finally have "(2::nat) ^ 53 < 2 ^ bitlen n" .
  then have "53 < bitlen n" by (simp only: power_strict_increasing_iff semiring_norm)
  then have "bitlen n = 53 + k" by (simp add: k_def)
  with bitlen_bound [of n] have "n < 2 ^ 53 * 2 ^ k" by (simp add: power_add)
  then have "q < 2 ^ 53" unfolding q_def by (rule less_mult_imp_div_less)
  then have "m \<le> 2 ^ 53" by (simp add: m_def)
  then have "round53 (real m * 2 ^ k) = real m * 2 ^ k" by (rule round53_of_nat_scaled)
  then show ?thesis by (simp add: f)
qed

lemma float64_of_int_round53:
  "0 \<le> i \<Longrightarrow> round53 (float64_of_int i) = float64_of_int i"
  by (simp add: float64_of_int_def float64_round53)

section \<open>The sampling curve\<close>

lemma samplingCurve_at_sampleMin: "samplingCurve (1 / 10) = 0"
  by (simp add: samplingCurve_def sampleMin_def)

lemma samplingCurve_at_sampleMax: "samplingCurve (3 / 10) = 1"
  by (simp add: samplingCurve_def sampleMin_def sampleMax_def)

lemma samplingCurve_at_middle: "samplingCurve (2 / 10) = 1"
  by (simp add: samplingCurve_def sampleMin_def sampleMax_def)

lemma samplingCurve_at_three_quarters: "samplingCurve (25 / 100) = 1 / 2"
proof -
  have "cos (3 * pi / 2) = 0"
    using cos_3over2_pi by (simp add: field_simps)
  then show ?thesis
    by (simp add: samplingCurve_def sampleMin_def sampleMax_def)
qed

lemma samplingCurve_inside:
  assumes "1 / 10 < w" and "w < 3 / 10"
  shows "samplingCurve w = (1 - cos ((w - 1 / 10) * (10 * pi))) / 2"
  using assms by (simp add: samplingCurve_def sampleMin_def sampleMax_def field_simps)

lemma samplingCurve_range: "0 \<le> samplingCurve w \<and> samplingCurve w \<le> 1"
  using cos_ge_minus_one [of "(w - sampleMin) * 2 * pi / (sampleMax - sampleMin)"]
        cos_le_one [of "(w - sampleMin) * 2 * pi / (sampleMax - sampleMin)"]
  by (simp add: samplingCurve_def)

lemma samplingCurve_rising:
  assumes "1 / 10 \<le> w1" and "w1 < w2" and "w2 \<le> 2 / 10"
  shows "samplingCurve w1 < samplingCurve w2"
proof -
  let ?x = "\<lambda>w::real. (w - 1 / 10) * (10 * pi)"
  have "0 \<le> ?x w1" and "?x w1 < ?x w2" and "?x w2 \<le> pi"
    using assms by simp_all
  then have c: "cos (?x w2) < cos (?x w1)"
    by (rule cos_monotone_0_pi)
  have s2: "samplingCurve w2 = (1 - cos (?x w2)) / 2"
    using assms by (intro samplingCurve_inside) simp_all
  show ?thesis
  proof (cases "w1 = 1 / 10")
    case True
    have "cos (?x w2) < 1"
      using c cos_le_one [of "?x w1"] by linarith
    moreover have "samplingCurve w1 = 0"
      using True by (simp add: samplingCurve_def sampleMin_def)
    ultimately show ?thesis using s2 by simp
  next
    case False
    then have "samplingCurve w1 = (1 - cos (?x w1)) / 2"
      using assms by (intro samplingCurve_inside) simp_all
    with c s2 show ?thesis by simp
  qed
qed

lemma samplingCurve_falling:
  assumes "2 / 10 \<le> w1" and "w1 < w2" and "w2 < 3 / 10"
  shows "samplingCurve w2 < samplingCurve w1"
proof -
  let ?x = "\<lambda>w::real. (w - 1 / 10) * (10 * pi)"
  let ?y = "\<lambda>w::real. (3 / 10 - w) * (10 * pi)"
  have mirror: "cos (?x w) = cos (?y w)" for w
  proof -
    have "?x w = 2 * pi - ?y w" by (simp add: algebra_simps)
    then show ?thesis by (simp only: cos_2pi_minus)
  qed
  have "0 \<le> ?y w2" and "?y w2 < ?y w1" and "?y w1 \<le> pi"
    using assms by simp_all
  then have c: "cos (?y w1) < cos (?y w2)"
    by (rule cos_monotone_0_pi)
  have "samplingCurve w2 = (1 - cos (?x w2)) / 2"
    using assms by (intro samplingCurve_inside) simp_all
  moreover have "samplingCurve w1 = (1 - cos (?x w1)) / 2"
    using assms by (intro samplingCurve_inside) simp_all
  ultimately show ?thesis using c mirror by simp
qed

text \<open>
  C2 (as stated, refuted).  The specification gives \<open>samplingCurve(0.2) = 0.5\<close>.  The argument of
  the cosine runs through a whole period \<open>2\<pi>\<close> between 0.1 and 0.3, so at 0.2 it is \<open>\<pi>\<close> and
  the curve is 1 there, not 0.5.
\<close>

theorem C2_samplingCurve_middle_not_half: "samplingCurve 0.2 \<noteq> 0.5"
  using samplingCurve_at_middle by simp

text \<open>
  C2 (amended).  \<open>samplingCurve(0.1) = 0\<close>, \<open>samplingCurve(0.3) = 1\<close> and
  \<open>samplingCurve(0.2) = 1\<close>.
\<close>

theorem C2_samplingCurve_boundary:
  "samplingCurve 0.1 = 0 \<and> samplingCurve 0.3 = 1 \<and> samplingCurve 0.2 = 1"
  using samplingCurve_at_sampleMin samplingCurve_at_sampleMax samplingCurve_at_middle by simp

text \<open>
  C3 (as stated, refuted).  The curve is not increasing on the open interval (0.1, 0.3):
  0.2 and 0.25 both lie in it, 0.2 is the smaller, and the curve is 1 at 0.2 and 0.5 at 0.25.
\<close>

theorem C3_samplingCurve_not_increasing:
  "(0.1::real) < 0.2 \<and> (0.2::real) < 0.25 \<and> (0.25::real) < 0.3
   \<and> samplingCurve 0.25 < samplingCurve 0.2"
  using samplingCurve_at_middle samplingCurve_at_three_quarters by simp

text \<open>
  C3 (amended).  On the open interval (0.1, 0.3) the sampling curve equals
  \<open>(1 - cos((w - 0.1) * 2\<pi> / 0.2)) / 2\<close>.  It is 0 at 0.1 and 1 at 0.2; it increases over
  [0.1, 0.2] and decreases over [0.2, 0.3).  The two monotonicity statements compare
  arguments that are at least \<open>10\<^sup>-\<^sup>6\<close> apart and do not claim a strict inequality: the curve
  is flat at 0.1, 0.2 and 0.3, where neighbouring \<^verbatim>\<open>float64\<close> arguments have equal values, and
  the last bit of \<^verbatim>\<open>math.Cos\<close> is outside the model.
\<close>

theorem C3_samplingCurve_shape:
  "(0.1 < w \<and> w < 0.3 \<longrightarrow> samplingCurve w = (1 - cos ((w - 0.1) * 2 * pi / 0.2)) / 2)
   \<and> samplingCurve 0.1 = 0 \<and> samplingCurve 0.2 = 1
   \<and> (0.1 \<le> w1 \<and> w1 + 1 / 10 ^ 6 \<le> w2 \<and> w2 \<le> 0.2 \<longrightarrow> samplingCurve w1 \<le> samplingCurve w2)
   \<and> (0.2 \<le> w1 \<and> w1 + 1 / 10 ^ 6 \<le> w2 \<and> w2 < 0.3 \<longrightarrow> samplingCurve w2 \<le> samplingCurve w1)"
proof (intro conjI impI)
  assume "0.1 < w \<and> w < 0.3"
  then show "samplingCurve w = (1 - cos ((w - 0.1) * 2 * pi / 0.2)) / 2"
    by (simp add: samplingCurve_def sampleMin_def sampleMax_def)
next
  show "samplingCurve 0.1 = 0"
    using samplingCurve_at_sampleMin by simp
next
  show "samplingCurve 0.2 = 1"
    using samplingCurve_at_middle by simp
next
  assume a: "0.1 \<le> w1 \<and> w1 + 1 / 10 ^ 6 \<le> w2 \<and> w2 \<le> 0.2"
  then have "w1 < w2" by simp
  with a have "samplingCurve w1 < samplingCurve w2"
    by (intro samplingCurve_rising) simp_all
  then show "samplingCurve w1 \<le> samplingCurve w2" by simp
next
  assume a: "0.2 \<le> w1 \<and> w1 + 1 / 10 ^ 6 \<le> w2 \<and> w2 < 0.3"
  then have "w1 < w2" by simp
  with a have "samplingCurve w2 < samplingCurve w1"
    by (intro samplingCurve_falling) simp_all
  then show "samplingCurve w2 \<le> samplingCurve w1" by simp
qed

theorem C3_samplingCurve_shape_witness:
  "((0.1::real) < 0.25 \<and> (0.25::real) < 0.3)
   \<and> samplingCurve 0.25 = (1 - cos ((0.25 - 0.1) * 2 * pi / 0.2)) / 2
   \<and> samplingCurve 0.1 = 0 \<and> samplingCurve 0.2 = 1
   \<and> ((0.1::real) \<le> 0.1 \<and> (0.1::real) + 1 / 10 ^ 6 \<le> 0.2 \<and> (0.2::real) \<le> 0.2)
   \<and> samplingCurve 0.1 \<le> samplingCurve 0.2
   \<and> ((0.2::real) \<le> 0.2 \<and> (0.2::real) + 1 / 10 ^ 6 \<le> 0.25 \<and> (0.25::real) < 0.3)
   \<and> samplingCurve 0.25 \<le> samplingCurve 0.2"
  using C3_samplingCurve_shape [of "0.25" "0.1" "0.2"]
        C3_samplingCurve_shape [of "0.25" "0.2" "0.25"]
  by simp

section \<open>Conversion of the base fees\<close>

lemma float64_small: "n < 2 ^ 53 \<Longrightarrow> float64 n = n"
  by (simp add: float64_def)

lemma bitlen_two_to_53: "bitlen 9007199254740992 = 54"
  by (simp add: bitlen.simps)

lemma bitlen_two_to_53_plus_1: "bitlen 9007199254740993 = 54"
  by (simp add: bitlen.simps)

lemma float64_two_to_53: "float64 (2 ^ 53) = 2 ^ 53"
  by (simp add: float64_def bitlen_two_to_53 Let_def)

lemma float64_upto_two_to_53: "n \<le> 2 ^ 53 \<Longrightarrow> float64 n = n"
  using float64_small [of n] float64_two_to_53 by (cases "n = 2 ^ 53") simp_all

text \<open>
  C4 (as stated, refuted).  A source base fee of \<open>2\<^sup>5\<^sup>3 + 1\<close> wei becomes the working
  value \<open>2\<^sup>5\<^sup>3\<close> (the conversion to \<^verbatim>\<open>float64\<close> drops the low bit), and a source base fee
  of \<open>2\<^sup>6\<^sup>4\<close> wei becomes 0 (\<^verbatim>\<open>Uint64\<close> keeps the low 64 bits only).
\<close>

theorem C4_baseFee_narrowed:
  "convert_baseFees [2 ^ 53 + 1, 2 ^ 64] = [2 ^ 53, 0]
   \<and> convert_baseFees [2 ^ 53 + 1, 2 ^ 64] ! 0 \<noteq> real (2 ^ 53 + 1)
   \<and> convert_baseFees [2 ^ 53 + 1, 2 ^ 64] ! 1 \<noteq> real (2 ^ 64)"
  by (simp add: convert_baseFees_def Uint64_def float64_def bitlen_two_to_53_plus_1 Let_def)

text \<open>
  C4 (amended).  For every entry of the source's \<^verbatim>\<open>baseFeePerGas\<close> sequence that is at
  most \<open>2\<^sup>5\<^sup>3\<close> wei, the working base-fee value equals the source's integer value exactly.
\<close>

theorem C4_baseFee_exact_upto_two_to_53:
  assumes "i < length es" and "es ! i \<le> 2 ^ 53"
  shows "convert_baseFees es ! i = real (es ! i)"
proof -
  have "es ! i < 2 ^ 64"
    using assms(2) by (rule le_less_trans) simp
  then have "Uint64 (es ! i) = es ! i"
    by (simp add: Uint64_def)
  with assms show ?thesis
    by (simp add: convert_baseFees_def float64_upto_two_to_53)
qed

theorem C4_baseFee_exact_witness:
  "(1::nat) < length [100, 2 ^ 53 :: nat] \<and> [100, 2 ^ 53 :: nat] ! 1 \<le> 2 ^ 53
   \<and> convert_baseFees [100, 2 ^ 53] ! 1 = real ([100, 2 ^ 53] ! 1)"
  using C4_baseFee_exact_upto_two_to_53 [of 1 "[100, 2 ^ 53]"] by simp

section \<open>The tip estimator\<close>

lemma maxBlockCount_loop_run:
  "maxBlockCount_loop g ptr need bc = Inr k \<Longrightarrow>
     bc \<le> k \<and> k - bc \<le> max need 0
     \<and> (\<forall>j. 0 \<le> j \<and> j < k - bc \<longrightarrow> 0.1 \<le> g ! nat (ptr - j) \<and> g ! nat (ptr - j) \<le> 0.9)
     \<and> (k - bc < need \<and> k - bc \<le> ptr \<longrightarrow>
          g ! nat (ptr - (k - bc)) < 0.1 \<or> g ! nat (ptr - (k - bc)) > 0.9)"
proof (induction g ptr need bc rule: maxBlockCount_loop.induct)
  case (1 g ptr need bc)
  show ?case
  proof (cases "need > 0 \<and> ptr \<ge> 0 \<and> \<not> int (length g) \<le> ptr
                \<and> \<not> (g ! nat ptr < 0.1 \<or> g ! nat ptr > 0.9)")
    case True
    with "1.prems" have rec: "maxBlockCount_loop g (ptr - 1) (need - 1) (bc + 1) = Inr k"
      by (subst (asm) maxBlockCount_loop.simps) (simp split: if_splits)
    from True have t: "need > 0 \<and> ptr \<ge> 0" "\<not> int (length g) \<le> ptr"
      "\<not> (g ! nat ptr < 0.1 \<or> g ! nat ptr > 0.9)"
      by simp_all
    note ih = "1.IH" [OF t rec]
    have ih1: "bc + 1 \<le> k"
      using ih by blast
    have ih2: "k - (bc + 1) \<le> max (need - 1) 0"
      using ih by blast
    have ih3: "\<forall>j. 0 \<le> j \<and> j < k - (bc + 1) \<longrightarrow>
                 0.1 \<le> g ! nat (ptr - 1 - j) \<and> g ! nat (ptr - 1 - j) \<le> 0.9"
      using ih by blast
    have ih4: "k - (bc + 1) < need - 1 \<and> k - (bc + 1) \<le> ptr - 1 \<longrightarrow>
                 g ! nat (ptr - 1 - (k - (bc + 1))) < 0.1
                 \<or> g ! nat (ptr - 1 - (k - (bc + 1))) > 0.9"
      using ih by blast
    have a: "bc \<le> k"
      using ih1 by simp
    have b: "k - bc \<le> max need 0"
      using ih2 t(1) by simp
    have c: "0.1 \<le> g ! nat (ptr - j) \<and> g ! nat (ptr - j) \<le> 0.9"
      if "0 \<le> j \<and> j < k - bc" for j
    proof (cases "j = 0")
      case True
      with t(3) show ?thesis by simp
    next
      case False
      with that have "0 \<le> j - 1 \<and> j - 1 < k - (bc + 1)" by simp
      with ih3 have "0.1 \<le> g ! nat (ptr - 1 - (j - 1)) \<and> g ! nat (ptr - 1 - (j - 1)) \<le> 0.9"
        by blast
      moreover have "ptr - 1 - (j - 1) = ptr - j" by simp
      ultimately show ?thesis by simp
    qed
    have d: "g ! nat (ptr - (k - bc)) < 0.1 \<or> g ! nat (ptr - (k - bc)) > 0.9"
      if "k - bc < need \<and> k - bc \<le> ptr"
    proof -
      from that have "k - (bc + 1) < need - 1 \<and> k - (bc + 1) \<le> ptr - 1" by simp
      with ih4 have "g ! nat (ptr - 1 - (k - (bc + 1))) < 0.1
                     \<or> g ! nat (ptr - 1 - (k - (bc + 1))) > 0.9"
        by blast
      moreover have "ptr - 1 - (k - (bc + 1)) = ptr - (k - bc)" by simp
      ultimately show ?thesis by simp
    qed
    from a b c d show ?thesis by blast
  next
    case False
    with "1.prems"
    have "k = bc \<and> (need > 0 \<and> ptr \<ge> 0 \<longrightarrow> g ! nat ptr < 0.1 \<or> g ! nat ptr > 0.9)"
      by (subst (asm) maxBlockCount_loop.simps) (auto split: if_splits)
    then show ?thesis by auto
  qed
qed

lemma maxBlockCount_boundary_run: "maxBlockCount [1 / 10, 9 / 10] 1 5 = Inr 2"
  by (simp add: maxBlockCount_def maxBlockCount_loop.simps)

text \<open>
  C5 (as stated, refuted).  With the ratios \<open>[0.1, 0.9]\<close>, the run that ends at the newest
  block (index 1) has length 2: the block with ratio exactly 0.9 and the block with ratio
  exactly 0.1 are both counted, neither ends the run.
\<close>

theorem C5_boundary_blocks_counted: "maxBlockCount [0.1, 0.9] 1 5 = Inr 2"
  using maxBlockCount_boundary_run by simp

text \<open>
  C5 (amended).  The run counted by \<^verbatim>\<open>maxBlockCount\<close> consists only of consecutive blocks,
  walking backward from \<open>ptr\<close>, whose gas-used ratio lies in the closed interval [0.1, 0.9];
  its length is at most \<open>needBlocks\<close>; and when the run stops before \<open>needBlocks\<close> blocks and
  before the start of the history, the block that ends it has a ratio below 0.1 or above 0.9.
\<close>

theorem C5_run_in_closed_band:
  assumes "maxBlockCount g ptr need = Inr k"
  shows "0 \<le> k \<and> k \<le> max need 0
     \<and> (\<forall>j. 0 \<le> j \<and> j < k \<longrightarrow> 0.1 \<le> g ! nat (ptr - j) \<and> g ! nat (ptr - j) \<le> 0.9)
     \<and> (k < need \<and> k \<le> ptr \<longrightarrow> g ! nat (ptr - k) < 0.1 \<or> g ! nat (ptr - k) > 0.9)"
  using maxBlockCount_loop_run [of g ptr need 0 k] assms
  unfolding maxBlockCount_def by simp

theorem C5_run_in_closed_band_witness:
  "maxBlockCount [95 / 100, 1 / 10, 9 / 10] 2 5 = Inr 2
   \<and> (0::int) \<le> 2 \<and> (2::int) \<le> max 5 0
   \<and> ((0::int) \<le> 1 \<and> (1::int) < 2)
   \<and> 0.1 \<le> [95 / 100, 1 / 10, 9 / 10 :: real] ! nat (2 - 1)
   \<and> [95 / 100, 1 / 10, 9 / 10 :: real] ! nat (2 - 1) \<le> 0.9
   \<and> ((2::int) < 5 \<and> (2::int) \<le> 2)
   \<and> ([95 / 100, 1 / 10, 9 / 10 :: real] ! nat (2 - 2) < 0.1
        \<or> [95 / 100, 1 / 10, 9 / 10 :: real] ! nat (2 - 2) > 0.9)"
proof -
  have run: "maxBlockCount [95 / 100, 1 / 10, 9 / 10] 2 5 = Inr 2"
    by (simp add: maxBlockCount_def maxBlockCount_loop.simps)
  from C5_run_in_closed_band [OF run] run show ?thesis by simp
qed

lemma maxBlockCount_four: "maxBlockCount [1 / 2, 1 / 2, 1 / 2, 1 / 2] 3 5 = Inr 4"
  by (simp add: maxBlockCount_def maxBlockCount_loop.simps)

lemma suggestTip_loop_four:
  "suggestTip_loop rpc_four 0 [1 / 2, 1 / 2, 1 / 2, 1 / 2] 5 3 [] = Inr [1, 3, 5, 7]"
  by (simp add: suggestTip_loop.simps [of _ _ _ 5 3] suggestTip_loop.simps [of _ _ _ 1 "- 2"]
      maxBlockCount_four rpc_four_def)

text \<open>
  C6 (as stated, refuted).  With the four samples 1, 3, 5, 7 the tip is 5, the element at
  index \<open>\<lfloor>4/2\<rfloor> = 2\<close>; the lower median of these samples is 3.
\<close>

theorem C6_tip_not_lower_median:
  "suggestTip_loop rpc_four 0 [0.5, 0.5, 0.5, 0.5] 5 3 [] = Inr [1, 3, 5, 7]
   \<and> suggestTip rpc_four 0 [0.5, 0.5, 0.5, 0.5] = Inr 5
   \<and> lower_median [1, 3, 5, 7] = 3"
  using suggestTip_loop_four by (simp add: suggestTip_def lower_median_def)

text \<open>
  C6 (amended).  For every non-empty reward sample set, the tip estimator returns one of the
  samples, namely the element at index \<open>\<lfloor>len/2\<rfloor>\<close> of the samples in ascending order; for
  an even-length sample set of \<open>2m\<close> samples this is the element at index \<open>m\<close>, the upper of
  the two middle elements.
\<close>

theorem C6_tip_is_element_at_half:
  assumes "suggestTip_loop rpc firstBlock g 5 (int (length g) - 1) [] = Inr rewards"
    and "rewards \<noteq> []"
  shows "\<exists>tip. suggestTip rpc firstBlock g = Inr tip \<and> tip \<in> set rewards
     \<and> (\<forall>ys. sorted ys \<and> mset ys = mset rewards \<longrightarrow> tip = ys ! (length rewards div 2))
     \<and> (\<forall>ys m. sorted ys \<and> mset ys = mset rewards \<and> length rewards = 2 * m \<longrightarrow>
            tip = ys ! m \<and> ys ! (m - 1) \<le> tip)"
proof -
  let ?tip = "sort rewards ! (length rewards div 2)"
  have t: "suggestTip rpc firstBlock g = Inr ?tip"
    using assms by (simp add: suggestTip_def)
  have "length rewards div 2 < length (sort rewards)"
    using assms(2) by simp
  then have "?tip \<in> set (sort rewards)"
    by (rule nth_mem)
  then have m: "?tip \<in> set rewards"
    by simp
  have at_half: "?tip = ys ! (length rewards div 2)"
    if "sorted ys \<and> mset ys = mset rewards" for ys
  proof -
    from that have "sort rewards = ys"
      by (intro properties_for_sort) simp_all
    then show ?thesis by simp
  qed
  have upper: "?tip = ys ! m \<and> ys ! (m - 1) \<le> ?tip"
    if "sorted ys \<and> mset ys = mset rewards \<and> length rewards = 2 * m" for ys m
  proof -
    from that have tip: "?tip = ys ! m"
      using at_half [of ys] by simp
    from that have "length ys = 2 * m"
      by (metis size_mset)
    moreover from that assms(2) have "0 < m"
      by (cases m) auto
    ultimately have "m < length ys" by simp
    with that have "ys ! (m - 1) \<le> ys ! m"
      by (intro sorted_nth_mono) simp_all
    with tip show ?thesis by simp
  qed
  from t m at_half upper show ?thesis by blast
qed

theorem C6_tip_is_element_at_half_witness:
  "suggestTip_loop rpc_four 0 [1 / 2, 1 / 2, 1 / 2, 1 / 2]
       5 (int (length [1 / 2, 1 / 2, 1 / 2, 1 / 2 :: real]) - 1) [] = Inr [1, 3, 5, 7]
   \<and> [1, 3, 5, 7 :: nat] \<noteq> []
   \<and> (\<exists>tip. suggestTip rpc_four 0 [1 / 2, 1 / 2, 1 / 2, 1 / 2] = Inr tip
          \<and> tip \<in> set [1, 3, 5, 7]
          \<and> (sorted [1, 3, 5, 7 :: nat] \<and> mset [1, 3, 5, 7 :: nat] = mset [1, 3, 5, 7]
                \<and> length [1, 3, 5, 7 :: nat] = 2 * 2)
          \<and> tip = [1, 3, 5, 7] ! (length [1, 3, 5, 7 :: nat] div 2)
          \<and> tip = [1, 3, 5, 7] ! 2 \<and> [1, 3, 5, 7] ! (2 - 1) \<le> tip)"
proof -
  have loop: "suggestTip_loop rpc_four 0 [1 / 2, 1 / 2, 1 / 2, 1 / 2]
       5 (int (length [1 / 2, 1 / 2, 1 / 2, 1 / 2 :: real]) - 1) [] = Inr [1, 3, 5, 7]"
    using suggestTip_loop_four by simp
  have ne: "[1, 3, 5, 7 :: nat] \<noteq> []"
    by simp
  have srt: "sorted [1, 3, 5, 7 :: nat] \<and> mset [1, 3, 5, 7 :: nat] = mset [1, 3, 5, 7]
                \<and> length [1, 3, 5, 7 :: nat] = 2 * 2"
    by simp
  from C6_tip_is_element_at_half [OF loop ne] obtain tip where
    tip: "suggestTip rpc_four 0 [1 / 2, 1 / 2, 1 / 2, 1 / 2] = Inr tip" "tip \<in> set [1, 3, 5, 7]"
    and half: "\<forall>ys. sorted ys \<and> mset ys = mset [1, 3, 5, 7] \<longrightarrow>
                 tip = ys ! (length [1, 3, 5, 7 :: nat] div 2)"
    and upper: "\<forall>ys m. sorted ys \<and> mset ys = mset [1, 3, 5, 7]
                  \<and> length [1, 3, 5, 7 :: nat] = 2 * m \<longrightarrow> tip = ys ! m \<and> ys ! (m - 1) \<le> tip"
    by blast
  from half srt have h: "tip = [1, 3, 5, 7] ! (length [1, 3, 5, 7 :: nat] div 2)"
    by blast
  from upper srt have u: "tip = [1, 3, 5, 7] ! 2 \<and> [1, 3, 5, 7] ! (2 - 1) \<le> tip"
    by blast
  from loop ne tip srt h u show ?thesis by blast
qed

subsection \<open>Where the tip and the errors of the tip estimator come from\<close>

lemma maxBlockCount_loop_error: "maxBlockCount_loop g ptr need bc = Inl e \<Longrightarrow> e = Panic"
proof (induction g ptr need bc rule: maxBlockCount_loop.induct)
  case (1 g ptr need bc)
  show ?case
  proof (cases "need > 0 \<and> ptr \<ge> 0 \<and> \<not> int (length g) \<le> ptr
                \<and> \<not> (g ! nat ptr < 0.1 \<or> g ! nat ptr > 0.9)")
    case True
    with "1.prems" have rec: "maxBlockCount_loop g (ptr - 1) (need - 1) (bc + 1) = Inl e"
      by (subst (asm) maxBlockCount_loop.simps) (simp split: if_splits)
    from True have t: "need > 0 \<and> ptr \<ge> 0" "\<not> int (length g) \<le> ptr"
      "\<not> (g ! nat ptr < 0.1 \<or> g ! nat ptr > 0.9)"
      by simp_all
    from "1.IH" [OF t rec] show ?thesis .
  next
    case False
    with "1.prems" show ?thesis
      by (subst (asm) maxBlockCount_loop.simps) (auto split: if_splits)
  qed
qed

lemma maxBlockCount_error: "maxBlockCount g ptr need = Inl e \<Longrightarrow> e = Panic"
  unfolding maxBlockCount_def by (rule maxBlockCount_loop_error)

lemma append_rewards_error: "append_rewards rewards rows = Inl e \<Longrightarrow> e = Panic"
proof (induction rows arbitrary: rewards)
  case Nil
  then show ?case by simp
next
  case (Cons row rows)
  then show ?case by (auto split: list.splits)
qed

lemma append_rewards_set:
  "append_rewards rewards rows = Inr rs \<Longrightarrow> set rs \<subseteq> set rewards \<union> \<Union> (set ` set rows)"
proof (induction rows arbitrary: rewards)
  case Nil
  then show ?case by simp
next
  case (Cons row rows)
  then show ?case by (fastforce split: list.splits)
qed

lemma suggestTip_loop_cases:
  assumes "suggestTip_loop rpc fb g need ptr rewards = res"
  obtains
    (stop) "\<not> (need > 0 \<and> ptr \<ge> 0)" "res = Inr rewards"
  | (count_panic) e where "maxBlockCount g ptr need = Inl e" "res = Inl e"
  | (rpc_error) bc err where "need > 0 \<and> ptr \<ge> 0" "maxBlockCount g ptr need = Inr bc" "bc > 0"
      "rpc (nat bc) (BlockNumber (fb + word_of_int ptr)) (Some [10]) = Inl err" "res = Inl err"
  | (row_panic) bc fh e where "need > 0 \<and> ptr \<ge> 0" "maxBlockCount g ptr need = Inr bc" "bc > 0"
      "rpc (nat bc) (BlockNumber (fb + word_of_int ptr)) (Some [10]) = Inr fh"
      "append_rewards rewards (Reward fh) = Inl e" "res = Inl e"
  | (short) bc fh rewards' where "need > 0 \<and> ptr \<ge> 0" "maxBlockCount g ptr need = Inr bc" "bc > 0"
      "rpc (nat bc) (BlockNumber (fb + word_of_int ptr)) (Some [10]) = Inr fh"
      "append_rewards rewards (Reward fh) = Inr rewards'"
      "int (length (Reward fh)) < bc" "res = Inr rewards'"
  | (continue) bc fh rewards' where "need > 0 \<and> ptr \<ge> 0" "maxBlockCount g ptr need = Inr bc" "bc > 0"
      "rpc (nat bc) (BlockNumber (fb + word_of_int ptr)) (Some [10]) = Inr fh"
      "append_rewards rewards (Reward fh) = Inr rewards'"
      "\<not> int (length (Reward fh)) < bc"
      "res = suggestTip_loop rpc fb g (need - bc) (ptr - (bc + 1)) rewards'"
  | (skip) bc where "need > 0 \<and> ptr \<ge> 0" "maxBlockCount g ptr need = Inr bc" "\<not> bc > 0"
      "res = suggestTip_loop rpc fb g need (ptr - (bc + 1)) rewards"
proof -
  note eq = suggestTip_loop.simps [of rpc fb g need ptr rewards]
  show thesis
  proof (cases "need > 0 \<and> ptr \<ge> 0")
    case False
    with eq assms have "res = Inr rewards" by simp
    with False show thesis by (rule stop)
  next
    case True
    show thesis
    proof (cases "maxBlockCount g ptr need")
      case (Inl e)
      with True eq assms have "res = Inl e" by simp
      with Inl show thesis by (rule count_panic)
    next
      case mbc: (Inr bc)
      show thesis
      proof (cases "bc > 0")
        case False
        with True mbc eq assms
        have "res = suggestTip_loop rpc fb g need (ptr - (bc + 1)) rewards" by simp
        with True mbc False show thesis by (rule skip)
      next
        case pos: True
        show thesis
        proof (cases "rpc (nat bc) (BlockNumber (fb + word_of_int ptr)) (Some [10])")
          case (Inl err)
          with True mbc pos eq assms have "res = Inl err" by simp
          with True mbc pos Inl show thesis by (rule rpc_error)
        next
          case fetch: (Inr fh)
          show thesis
          proof (cases "append_rewards rewards (Reward fh)")
            case (Inl e)
            with True mbc pos fetch eq assms have "res = Inl e" by simp
            with True mbc pos fetch Inl show thesis by (rule row_panic)
          next
            case app: (Inr rewards')
            show thesis
            proof (cases "int (length (Reward fh)) < bc")
              case True
              with \<open>need > 0 \<and> ptr \<ge> 0\<close> mbc pos fetch app eq assms
              have "res = Inr rewards'" by simp
              with \<open>need > 0 \<and> ptr \<ge> 0\<close> mbc pos fetch app True show thesis by (rule short)
            next
              case False
              with True mbc pos fetch app eq assms
              have "res = suggestTip_loop rpc fb g (need - bc) (ptr - (bc + 1)) rewards'"
                by simp
              with True mbc pos fetch app False show thesis by (rule continue)
            qed
          qed
        qed
      qed
    qed
  qed
qed

lemma suggestTip_loop_error:
  "suggestTip_loop rpc fb g need ptr rewards = Inl e \<Longrightarrow>
     e = Panic \<or> (\<exists>bc nb. rpc bc nb (Some [10]) = Inl e)"
proof (induction rpc fb g need ptr rewards rule: suggestTip_loop.induct)
  case (1 rpc fb g need ptr rewards)
  from "1.prems" show ?case
  proof (cases rule: suggestTip_loop_cases)
    case stop
    then show ?thesis by simp
  next
    case (count_panic e')
    then show ?thesis using maxBlockCount_error by auto
  next
    case (rpc_error bc err)
    then show ?thesis by auto
  next
    case (row_panic bc fh e')
    then show ?thesis using append_rewards_error by auto
  next
    case (short bc fh rewards')
    then show ?thesis by simp
  next
    case (continue bc fh rewards')
    from "1.IH"(1) [OF continue(1-6) continue(7) [symmetric]] show ?thesis .
  next
    case (skip bc)
    from "1.IH"(2) [OF skip(1-3) skip(4) [symmetric]] show ?thesis .
  qed
qed

lemma suggestTip_loop_rewards:
  "suggestTip_loop rpc fb g need ptr rewards = Inr rs \<Longrightarrow>
     \<forall>r\<in>set rs. r \<in> set rewards
        \<or> (\<exists>bc nb fh row. rpc bc nb (Some [10]) = Inr fh \<and> row \<in> set (Reward fh) \<and> r \<in> set row)"
proof (induction rpc fb g need ptr rewards rule: suggestTip_loop.induct)
  case (1 rpc fb g need ptr rewards)
  let ?from_rpc = "\<lambda>r. \<exists>bc nb fh row. rpc bc nb (Some [10]) = Inr fh \<and> row \<in> set (Reward fh)
                       \<and> r \<in> set row"
  from "1.prems" show ?case
  proof (cases rule: suggestTip_loop_cases)
    case stop
    then show ?thesis by simp
  next
    case (count_panic e')
    then show ?thesis by simp
  next
    case (rpc_error bc err)
    then show ?thesis by simp
  next
    case (row_panic bc fh e')
    then show ?thesis by simp
  next
    case (short bc fh rewards')
    from append_rewards_set [OF short(5)] short(4)
    have "\<forall>r\<in>set rewards'. r \<in> set rewards \<or> ?from_rpc r" by fastforce
    with short(7) show ?thesis by simp
  next
    case (continue bc fh rewards')
    from append_rewards_set [OF continue(5)] continue(4)
    have step: "\<forall>r\<in>set rewards'. r \<in> set rewards \<or> ?from_rpc r" by fastforce
    from "1.IH"(1) [OF continue(1-6) continue(7) [symmetric]]
    have "\<forall>r\<in>set rs. r \<in> set rewards' \<or> ?from_rpc r" .
    with step show ?thesis by blast
  next
    case (skip bc)
    from "1.IH"(2) [OF skip(1-3) skip(4) [symmetric]] show ?thesis .
  qed
qed

lemma suggestTip_value:
  assumes "suggestTip rpc fb g = Inr tip"
  shows "tip = 5000000000
     \<or> (\<exists>bc nb fh row. rpc bc nb (Some [10]) = Inr fh \<and> row \<in> set (Reward fh) \<and> tip \<in> set row)"
proof -
  from assms obtain rs where
    loop: "suggestTip_loop rpc fb g 5 (int (length g) - 1) [] = Inr rs"
    and tip: "tip = (if length rs = 0 then 5000000000 else sort rs ! (length rs div 2))"
    by (auto simp: suggestTip_def split: sum.splits if_splits)
  show ?thesis
  proof (cases "rs = []")
    case True
    with tip show ?thesis by simp
  next
    case False
    then have "length rs div 2 < length (sort rs)" by simp
    then have "sort rs ! (length rs div 2) \<in> set (sort rs)" by (rule nth_mem)
    with tip False have "tip \<in> set rs" by simp
    with suggestTip_loop_rewards [OF loop] show ?thesis by simp
  qed
qed

lemma suggestTip_error:
  "suggestTip rpc fb g = Inl e \<Longrightarrow> e = Panic \<or> (\<exists>bc nb. rpc bc nb (Some [10]) = Inl e)"
  by (auto simp: suggestTip_def split: sum.splits if_splits dest: suggestTip_loop_error)

lemma suggestTip_no_ratio: "suggestTip rpc 0 [] = Inr 5000000000"
  by (simp add: suggestTip_def suggestTip_loop.simps [of _ _ _ 5 "- 1"])

section \<open>The base fee projector\<close>

lemma samplingCurve_saturated: "3 / 10 \<le> w \<Longrightarrow> samplingCurve w = 1"
  by (simp add: samplingCurve_def sampleMin_def sampleMax_def)

lemma suggestBaseFee_loop_returns:
  "\<forall>i\<in>set os. i < length B \<Longrightarrow> \<exists>r. suggestBaseFee_loop B t pw os sw res lst = Inr r"
proof (induction os arbitrary: sw res lst)
  case Nil
  show ?case by simp
next
  case (Cons oi rest)
  then have "oi < length B" and "\<forall>i\<in>set rest. i < length B" by simp_all
  with Cons.IH show ?case by (simp add: Let_def)
qed

lemma suggestBaseFee_returns:
  assumes "B \<noteq> []" and "\<forall>i\<in>set ord. i < length B"
  shows "\<exists>r. suggestBaseFee B ord t = Inr r"
  using assms suggestBaseFee_loop_returns [of ord B]
  by (simp add: suggestBaseFee_def Let_def)

lemma suggestBaseFee_loop_error:
  "suggestBaseFee_loop B t pw os sw res lst = Inl e \<Longrightarrow> e = Panic"
proof (induction os arbitrary: sw res lst)
  case Nil
  then show ?case by simp
next
  case (Cons oi rest)
  then show ?case by (auto simp: Let_def split: if_splits)
qed

lemma suggestBaseFee_error: "suggestBaseFee B ord t = Inl e \<Longrightarrow> e = Panic"
  by (auto simp: suggestBaseFee_def Let_def split: if_splits dest: suggestBaseFee_loop_error)

text \<open>
  The invariant of the loop.  Let the values visited so far be \<open>b\<^sub>1 \<le> \<dots> \<le> b\<^sub>k\<close>, with curve
  values \<open>c\<^sub>1, \<dots>, c\<^sub>k\<close>.  Then \<open>result + (1 - c\<^sub>k) * y\<close> lies between \<open>b\<^sub>1\<close> and \<open>y\<close> for every
  \<open>y \<ge> b\<^sub>k\<close>: the mass not yet handed out, put on any larger value, gives a weighted mean.
  The increments \<open>c\<^sub>i - c\<^sub>i\<^sub>-\<^sub>1\<close> may be negative; the order of the values makes up for it.
\<close>

lemma suggestBaseFee_loop_range:
  assumes "os \<noteq> []"
    and "\<forall>i\<in>set os. i < length B"
    and "sorted (map (\<lambda>i. B ! i) os)"
    and "\<forall>i\<in>set os. p \<le> B ! i \<and> B ! i \<le> hi"
    and "0 \<le> lst \<and> lst \<le> 1"
    and "\<forall>y. p \<le> y \<longrightarrow> lo \<le> res + (1 - lst) * y \<and> res + (1 - lst) * y \<le> y"
    and "3 / 10 \<le> sw + (\<Sum>i\<leftarrow>os. pw * exp (real_of_int (int i - int (length B) + 1) / t))"
  shows "\<exists>r. suggestBaseFee_loop B t pw os sw res lst = Inr r \<and> lo \<le> r \<and> r \<le> hi"
  using assms
proof (induction os arbitrary: sw res lst p)
  case Nil
  then show ?case by simp
next
  case (Cons oi rest)
  let ?w = "\<lambda>i. pw * exp (real_of_int (int i - int (length B) + 1) / t)"
  let ?sw = "sw + ?w oi"
  let ?c = "samplingCurve ?sw"
  let ?res = "res + (?c - lst) * (B ! oi)"
  have inb: "oi < length B" using Cons.prems(2) by simp
  have c01: "0 \<le> ?c \<and> ?c \<le> 1" by (rule samplingCurve_range)
  have poi: "p \<le> B ! oi" and oihi: "B ! oi \<le> hi" using Cons.prems(4) by simp_all
  have base: "lo \<le> res + (1 - lst) * (B ! oi) \<and> res + (1 - lst) * (B ! oi) \<le> B ! oi"
    using Cons.prems(6) poi by blast
  have inv: "lo \<le> ?res + (1 - ?c) * y \<and> ?res + (1 - ?c) * y \<le> y" if "B ! oi \<le> y" for y
  proof -
    have split: "?res + (1 - ?c) * y = (res + (1 - lst) * (B ! oi)) + (1 - ?c) * (y - B ! oi)"
      by (simp add: algebra_simps)
    have nn: "0 \<le> (1 - ?c) * (y - B ! oi)"
      using c01 that by (intro mult_nonneg_nonneg) simp_all
    have "(1 - ?c) * (y - B ! oi) \<le> 1 * (y - B ! oi)"
      using c01 that by (intro mult_right_mono) simp_all
    then have up: "(1 - ?c) * (y - B ! oi) \<le> y - B ! oi" by simp
    show ?thesis using base nn up unfolding split by linarith
  qed
  show ?case
  proof (cases "?c \<ge> 1")
    case True
    then have c1: "?c = 1" using c01 by linarith
    have "lo \<le> ?res + (1 - ?c) * (B ! oi) \<and> ?res + (1 - ?c) * (B ! oi) \<le> B ! oi"
      by (rule inv) simp
    then have "lo \<le> ?res \<and> ?res \<le> hi" using c1 oihi by simp
    moreover have "suggestBaseFee_loop B t pw (oi # rest) sw res lst = Inr ?res"
      using inb True by (simp add: Let_def)
    ultimately show ?thesis by simp
  next
    case False
    have ne: "rest \<noteq> []"
    proof
      assume "rest = []"
      with Cons.prems(7) have "3 / 10 \<le> ?sw" by simp
      then have "?c = 1" by (rule samplingCurve_saturated)
      with False show False by simp
    qed
    have step: "suggestBaseFee_loop B t pw (oi # rest) sw res lst
                = suggestBaseFee_loop B t pw rest ?sw ?res ?c"
      using inb False by (simp add: Let_def)
    have srt: "sorted (map (\<lambda>i. B ! i) rest)"
      using Cons.prems(3) by simp
    have bnd: "\<forall>i\<in>set rest. B ! oi \<le> B ! i \<and> B ! i \<le> hi"
      using Cons.prems(3,4) by simp
    have inr: "\<forall>i\<in>set rest. i < length B"
      using Cons.prems(2) by simp
    have tot: "3 / 10 \<le> ?sw + (\<Sum>i\<leftarrow>rest. ?w i)"
      using Cons.prems(7) by (simp add: add.assoc)
    have inv': "\<forall>y. B ! oi \<le> y \<longrightarrow> lo \<le> ?res + (1 - ?c) * y \<and> ?res + (1 - ?c) * y \<le> y"
      using inv by blast
    from Cons.IH [OF ne inr srt bnd c01 inv' tot] step show ?thesis by simp
  qed
qed

text \<open>The weights of all blocks add up to 1, so the last value visited saturates the curve.\<close>

lemma total_weight:
  assumes "0 < t" and "0 < n"
  shows "(\<Sum>i<n. (1 - exp (- 1 / t)) / (1 - exp (- real n / t))
              * exp (real_of_int (int i - int n + 1) / t)) = 1"
proof -
  let ?q = "exp (- 1 / t)"
  have q1: "?q \<noteq> 1" using assms(1) by simp
  have qn: "exp (- real n / t) = ?q ^ n"
  proof -
    have "- real n / t = real n * (- 1 / t)" by simp
    then show ?thesis by (simp only: exp_of_nat_mult)
  qed
  have "exp (- real n / t) \<noteq> 1"
    using assms by simp
  then have qn1: "?q ^ n \<noteq> 1"
    unfolding qn .
  have expo: "exp (real_of_int (int i - int n + 1) / t) = ?q ^ (n - Suc i)" if "i < n" for i
  proof -
    have "real (n - Suc i) = real n - real i - 1"
      using that by simp
    then have "real_of_int (int i - int n + 1) / t = real (n - Suc i) * (- 1 / t)"
      by (simp add: divide_simps)
    then show ?thesis by (simp only: exp_of_nat_mult)
  qed
  have "(\<Sum>i<n. exp (real_of_int (int i - int n + 1) / t)) = (\<Sum>i<n. ?q ^ (n - Suc i))"
  proof (rule sum.cong)
    show "{..<n} = {..<n}" ..
  next
    fix i assume "i \<in> {..<n}"
    then have "i < n" by simp
    then show "exp (real_of_int (int i - int n + 1) / t) = ?q ^ (n - Suc i)" by (rule expo)
  qed
  also have "\<dots> = (\<Sum>i<n. ?q ^ i)"
    by (rule sum.nat_diff_reindex)
  also have "\<dots> = (?q ^ n - 1) / (?q - 1)"
    using q1 by (rule geometric_sum)
  finally have geo: "(\<Sum>i<n. exp (real_of_int (int i - int n + 1) / t)) = (?q ^ n - 1) / (?q - 1)" .
  have "(\<Sum>i<n. (1 - ?q) / (1 - exp (- real n / t)) * exp (real_of_int (int i - int n + 1) / t))
        = (1 - ?q) / (1 - ?q ^ n) * (\<Sum>i<n. exp (real_of_int (int i - int n + 1) / t))"
    unfolding qn by (rule sum_distrib_left [symmetric])
  also have "\<dots> = (1 - ?q) / (1 - ?q ^ n) * ((?q ^ n - 1) / (?q - 1))"
    by (simp only: geo)
  also have "\<dots> = 1"
  proof -
    have x: "1 - ?q \<noteq> 0" and y: "1 - ?q ^ n \<noteq> 0"
      using q1 qn1 by simp_all
    have "(?q ^ n - 1) * (1 - ?q) = (1 - ?q ^ n) * (?q - 1)"
      by (simp add: algebra_simps)
    then have "(?q ^ n - 1) / (?q - 1) = (1 - ?q ^ n) / (1 - ?q)"
      using x by (simp add: frac_eq_eq)
    then show ?thesis
      using x y by simp
  qed
  finally show ?thesis .
qed

lemma sum_list_permutation:
  fixes f :: "nat \<Rightarrow> real"
  assumes "mset os = mset [0..<n]"
  shows "(\<Sum>i\<leftarrow>os. f i) = (\<Sum>i<n. f i)"
proof -
  have "(\<Sum>i\<leftarrow>os. f i) = sum_mset (image_mset f (mset os))"
    by (simp add: sum_mset_sum_list [symmetric])
  also have "\<dots> = sum_mset (image_mset f (mset [0..<n]))"
    by (simp only: assms)
  also have "\<dots> = (\<Sum>i\<leftarrow>[0..<n]. f i)"
    by (simp add: sum_mset_sum_list [symmetric])
  also have "\<dots> = (\<Sum>i<n. f i)"
    by (simp add: interv_sum_list_conv_sum_set_nat atLeast0LessThan)
  finally show ?thesis .
qed

text \<open>
  The idealised projection is a weighted mean of the base fees, hence lies between the
  least and the greatest of them.  This is a fact of exact arithmetic.  The compiled code
  rounds every curve value, every increment and every partial sum, so its increments need
  not add up to 1 and its result can miss either bound by a unit in the last place.
\<close>

lemma suggestBaseFee_range:
  assumes "B \<noteq> []" and "0 \<le> t"
    and "mset ord = mset [0..<length B]"
    and "sorted (map (\<lambda>i. B ! i) ord)"
  shows "\<exists>r. suggestBaseFee B ord t = Inr r \<and> Min (set B) \<le> r \<and> r \<le> Max (set B)"
proof (cases "t < 1 / 10 ^ 6")
  case True
  have "B ! (length B - 1) \<in> set B"
    using assms(1) by simp
  then have "Min (set B) \<le> B ! (length B - 1) \<and> B ! (length B - 1) \<le> Max (set B)"
    by simp
  with True assms(1) show ?thesis
    by (simp add: suggestBaseFee_def)
next
  case False
  have "(0::real) < 1 / 10 ^ 6" by simp
  with False have tpos: "0 < t" by linarith
  let ?pw = "(1 - exp (- 1 / t)) / (1 - exp (- real (length B) / t))"
  have seteq: "set ord = {0..<length B}"
    using assms(3) by (metis mset_eq_setD set_upt)
  have ne: "ord \<noteq> []"
    using seteq assms(1) by auto
  have inr: "\<forall>i\<in>set ord. i < length B"
    using seteq by simp
  have bnd: "\<forall>i\<in>set ord. Min (set B) \<le> B ! i \<and> B ! i \<le> Max (set B)"
    using inr by simp
  have tot: "3 / 10 \<le> 0 + (\<Sum>i\<leftarrow>ord. ?pw * exp (real_of_int (int i - int (length B) + 1) / t))"
    using total_weight [OF tpos, of "length B"] assms(1)
    by (simp add: sum_list_permutation [OF assms(3)])
  have start: "\<forall>y. Min (set B) \<le> y \<longrightarrow>
                 Min (set B) \<le> 0 + (1 - 0) * y \<and> 0 + (1 - 0) * y \<le> y"
    by simp
  have "\<exists>r. suggestBaseFee_loop B t ?pw ord 0 0 0 = Inr r \<and> Min (set B) \<le> r \<and> r \<le> Max (set B)"
    by (rule suggestBaseFee_loop_range [OF ne inr assms(4) bnd _ start tot]) simp
  with False show ?thesis
    by (simp add: suggestBaseFee_def Let_def)
qed

section \<open>The ladder\<close>

lemma ladder_loop_entries:
  assumes "ladder_loop B ord tip n (maxBaseFee_after B ord (16 - n)) resp = Inr out"
    and "n \<le> 16" and "length resp = 16"
  shows "length out = 16
     \<and> (\<forall>t<n. \<exists>bf. suggestBaseFee B ord (real t) = Inr bf
            \<and> out ! t = Some (ladder_entry (float64_of_int tip)
                                (maxBaseFee_after B ord (15 - t)) bf))
     \<and> (\<forall>t. n \<le> t \<longrightarrow> out ! t = resp ! t)"
  using assms
proof (induction n arbitrary: resp)
  case 0
  then show ?case by simp
next
  case (Suc n)
  let ?M = "maxBaseFee_after B ord (15 - n)"
  let ?t = "float64_of_int tip"
  have k: "16 - Suc n = 15 - n" and k': "16 - n = Suc (15 - n)" and k'': "15 - (15 - n) = n"
    using Suc.prems(2) by simp_all
  from Suc.prems(1) obtain bf where bf: "suggestBaseFee B ord (real n) = Inr bf"
    by (cases "suggestBaseFee B ord (real n)") (simp_all add: k)
  let ?M' = "if bf > ?M then bf else ?M"
  let ?resp = "resp[n := Some (ladder_entry ?t ?M bf)]"
  have M': "maxBaseFee_after B ord (16 - n) = ?M'"
    unfolding k' by (simp add: k'' bf Let_def)
  have rec: "ladder_loop B ord tip n (maxBaseFee_after B ord (16 - n)) ?resp = Inr out"
    using Suc.prems(1) unfolding k M'
    by (simp add: bf Let_def ladder_entry_def dip_tip_def split: if_splits)
  have len: "length ?resp = 16" using Suc.prems(3) by simp
  from Suc.IH [OF rec _ len] Suc.prems(2)
  have ih1: "length out = 16"
    and ih2: "\<forall>t<n. \<exists>bf. suggestBaseFee B ord (real t) = Inr bf
            \<and> out ! t = Some (ladder_entry ?t (maxBaseFee_after B ord (15 - t)) bf)"
    and ih3: "\<forall>t. n \<le> t \<longrightarrow> out ! t = ?resp ! t"
    by simp_all
  have atn: "out ! n = Some (ladder_entry ?t ?M bf)"
    using ih3 Suc.prems(2,3) by simp
  have below: "\<exists>bf. suggestBaseFee B ord (real t) = Inr bf
            \<and> out ! t = Some (ladder_entry ?t (maxBaseFee_after B ord (15 - t)) bf)"
    if "t < Suc n" for t
  proof (cases "t = n")
    case True
    with bf atn show ?thesis by simp
  next
    case False
    with that have "t < n" by simp
    with ih2 show ?thesis by blast
  qed
  have above: "out ! t = resp ! t" if "Suc n \<le> t" for t
    using ih3 that by simp
  from ih1 below above show ?case by blast
qed

lemma maxBaseFee_after_nonneg: "0 \<le> maxBaseFee_after B ord k"
  by (induction k) (auto simp: Let_def split: sum.splits)

lemma maxBaseFee_after_mono_step: "maxBaseFee_after B ord k \<le> maxBaseFee_after B ord (Suc k)"
  by (auto simp: Let_def split: sum.splits)

lemma maxBaseFee_after_mono: "k \<le> k' \<Longrightarrow> maxBaseFee_after B ord k \<le> maxBaseFee_after B ord k'"
proof (induction k' )
  case 0
  then show ?case by simp
next
  case (Suc k')
  show ?case
  proof (cases "k = Suc k'")
    case True
    then show ?thesis by simp
  next
    case False
    with Suc.prems have "k \<le> k'" by simp
    from Suc.IH [OF this] maxBaseFee_after_mono_step [of B ord k'] show ?thesis by linarith
  qed
qed

lemma maxBaseFee_after_ge_bf:
  assumes "suggestBaseFee B ord (real t) = Inr bf" and "t \<le> 15"
  shows "bf \<le> maxBaseFee_after B ord (16 - t)"
proof -
  have k: "16 - t = Suc (15 - t)" and k': "15 - (15 - t) = t" using assms(2) by simp_all
  show ?thesis unfolding k by (simp add: k' assms(1) Let_def)
qed

lemma maxBaseFee_after_le:
  assumes "\<forall>t. \<forall>bf. suggestBaseFee B ord (real t) = Inr bf \<longrightarrow> bf \<le> hi" and "0 \<le> hi"
  shows "maxBaseFee_after B ord k \<le> hi"
  using assms by (induction k) (auto simp: Let_def split: sum.splits)

lemma ladder_entry_running_max:
  assumes "suggestBaseFee B ord (real t) = Inr bf" and "t \<le> 15"
  shows "MaxFeePerGas (ladder_entry tp (maxBaseFee_after B ord (15 - t)) bf)
         = round53 (maxBaseFee_after B ord (16 - t)
                    + MaxPriorityFeePerGas (ladder_entry tp (maxBaseFee_after B ord (15 - t)) bf))"
proof -
  have k: "16 - t = Suc (15 - t)" and k': "15 - (15 - t) = t" using assms(2) by simp_all
  show ?thesis unfolding k by (simp add: k' assms(1) Let_def ladder_entry_def)
qed

lemma dip_tip_ge:
  assumes "0 \<le> t" and "round53 t = t" and "bf \<le> M"
  shows "t \<le> dip_tip t M bf"
proof -
  have "0 \<le> round53 (M - bf)"
    using assms(3) by (intro round53_nonneg) simp
  then have "0 \<le> round53 (M - bf) * extraTipRatio"
    by (simp add: extraTipRatio_def)
  then have "0 \<le> round53 (round53 (M - bf) * extraTipRatio)"
    by (rule round53_nonneg)
  then have "t \<le> t + round53 (round53 (M - bf) * extraTipRatio)"
    by simp
  with assms(1) have "round53 t \<le> round53 (t + round53 (round53 (M - bf) * extraTipRatio))"
    by (rule round53_mono_nonneg)
  then show ?thesis
    by (simp add: dip_tip_def assms(2))
qed

lemma dip_tip_rounded:
  assumes "0 \<le> t" and "bf \<le> M"
  shows "round53 (dip_tip t M bf) = dip_tip t M bf"
proof -
  have "0 \<le> round53 (M - bf)"
    using assms(2) by (intro round53_nonneg) simp
  then have "0 \<le> round53 (M - bf) * extraTipRatio"
    by (simp add: extraTipRatio_def)
  then have "0 \<le> round53 (round53 (M - bf) * extraTipRatio)"
    by (rule round53_nonneg)
  with assms(1) have "0 \<le> t + round53 (round53 (M - bf) * extraTipRatio)"
    by simp
  then show ?thesis
    unfolding dip_tip_def by (rule round53_idem)
qed

lemma ladder_entry_bounds:
  assumes "0 \<le> t" and "round53 t = t" and "0 \<le> M"
  shows "0 \<le> MaxPriorityFeePerGas (ladder_entry t M bf)
       \<and> MaxPriorityFeePerGas (ladder_entry t M bf) \<le> MaxFeePerGas (ladder_entry t M bf)"
proof (cases "bf > M")
  case True
  have "t \<le> bf + t" using True assms(3) by simp
  with assms(1) have "round53 t \<le> round53 (bf + t)"
    by (rule round53_mono_nonneg)
  with True assms(1,2) show ?thesis by (simp add: ladder_entry_def)
next
  case False
  define d where "d = dip_tip t M bf"
  have ge: "t \<le> d"
    unfolding d_def using assms(1,2) False by (intro dip_tip_ge) simp_all
  have rd: "round53 d = d"
    unfolding d_def using assms(1) False by (intro dip_tip_rounded) simp_all
  have d0: "0 \<le> d" using ge assms(1) by linarith
  have "d \<le> M + d" using assms(3) by simp
  with d0 have "round53 d \<le> round53 (M + d)"
    by (rule round53_mono_nonneg)
  then have "d \<le> round53 (M + d)" by (simp only: rd)
  with d0 False show ?thesis by (simp add: ladder_entry_def d_def)
qed

lemma float64_of_int_nonneg: "0 \<le> i \<Longrightarrow> 0 \<le> float64_of_int i"
  by (simp add: float64_of_int_def)

lemma Int64_small: "tip < 2 ^ 63 \<Longrightarrow> Int64 tip = int tip"
proof -
  assume a: "tip < 2 ^ 63"
  then have "tip < 2 ^ 64" by (rule less_trans) simp
  then have "tip mod 2 ^ 64 = tip" by simp
  moreover have "int tip < 2 ^ 63" using a by (metis of_nat_less_iff of_nat_numeral of_nat_power)
  ultimately show ?thesis by (simp add: Int64_def Let_def)
qed

lemma propagate_length:
  "propagate g n B = Inr B' \<Longrightarrow> length B' = length B"
proof (induction n arbitrary: B)
  case 0
  then show ?case by simp
next
  case (Suc n)
  then show ?case by (auto split: if_splits)
qed

lemma propagate_returns:
  "n < length B \<Longrightarrow> \<exists>B'. propagate g n B = Inr B'"
proof (induction n arbitrary: B)
  case 0
  show ?case by simp
next
  case (Suc n)
  then show ?case by simp
qed

lemma propagate_error: "propagate g n B = Inl e \<Longrightarrow> e = Panic"
proof (induction n arbitrary: B)
  case 0
  then show ?case by simp
next
  case (Suc n)
  then show ?case by (auto split: if_splits)
qed

lemma working_baseFees_length:
  assumes "working_baseFees h = Inr B"
  shows "length B = length (BaseFee h) \<and> B \<noteq> []"
proof -
  let ?B0 = "convert_baseFees (BaseFee h)"
  from assms have ne: "?B0 \<noteq> []"
    by (auto simp: working_baseFees_def Let_def split: if_splits)
  with assms have "propagate (GasUsedRatio h) (length (GasUsedRatio h))
                     (?B0[length ?B0 - 1 := round53 (round53 (?B0 ! (length ?B0 - 1) * 9) / 8)])
           = Inr B"
    by (simp add: working_baseFees_def Let_def)
  then have "length B = length ?B0"
    by (auto dest: propagate_length)
  with ne show ?thesis by (auto simp: convert_baseFees_def)
qed

lemma working_baseFees_returns:
  assumes "BaseFee h \<noteq> []" and "length (GasUsedRatio h) < length (BaseFee h)"
  shows "\<exists>B. working_baseFees h = Inr B"
proof -
  let ?B0 = "convert_baseFees (BaseFee h)"
  have len: "length ?B0 = length (BaseFee h)" by (simp add: convert_baseFees_def)
  with assms(1) have ne: "?B0 \<noteq> []" by auto
  have "length (GasUsedRatio h)
          < length (?B0[length ?B0 - 1 := round53 (round53 (?B0 ! (length ?B0 - 1) * 9) / 8)])"
    using assms(2) len by simp
  from propagate_returns [OF this, of "GasUsedRatio h"] ne show ?thesis
    by (simp add: working_baseFees_def Let_def)
qed

lemma working_baseFees_error: "working_baseFees h = Inl e \<Longrightarrow> e = Panic"
  by (auto simp: working_baseFees_def Let_def split: if_splits dest: propagate_error)

lemma sorted_order_mset: "mset (sorted_order B) = mset [0..<length B]"
  by (simp add: sorted_order_def)

lemma sorted_order_sorted: "sorted (map (\<lambda>i. B ! i) (sorted_order B))"
  by (simp add: sorted_order_def)

lemma sorted_order_in_range: "\<forall>i\<in>set (sorted_order B). i < length B"
  by (simp add: sorted_order_def)

lemma ladder_loop_returns:
  assumes "B \<noteq> []" and "\<forall>i\<in>set ord. i < length B"
  shows "\<exists>out. ladder_loop B ord tip n M resp = Inr out"
proof (induction n arbitrary: M resp)
  case 0
  show ?case by simp
next
  case (Suc n)
  from suggestBaseFee_returns [OF assms] obtain bf where "suggestBaseFee B ord (real n) = Inr bf"
    by blast
  with Suc show ?case by (simp add: Let_def)
qed

lemma ladder_loop_error: "ladder_loop B ord tip n M resp = Inl e \<Longrightarrow> e = Panic"
proof (induction n arbitrary: M resp)
  case 0
  then show ?case by simp
next
  case (Suc n)
  then show ?case
    by (auto simp: Let_def split: sum.splits if_splits dest: suggestBaseFee_error)
qed

lemma SuggestFees_unfold:
  assumes "SuggestFees rpc = Inr out"
  shows "\<exists>h B tip. rpc 100 Latest None = Inr h \<and> working_baseFees h = Inr B
           \<and> suggestTip rpc (OldestBlock h) (GasUsedRatio h) = Inr tip
           \<and> ladder_loop B (sorted_order B) (Int64 tip) 16 0 (replicate 16 None) = Inr out"
  using assms by (auto simp: SuggestFees_def Let_def split: sum.splits)

lemma SuggestFees_returns:
  assumes "rpc 100 Latest None = Inr h"
    and "BaseFee h \<noteq> []" and "length (GasUsedRatio h) < length (BaseFee h)"
    and "suggestTip rpc (OldestBlock h) (GasUsedRatio h) = Inr tip"
  shows "\<exists>out. SuggestFees rpc = Inr out"
proof -
  from working_baseFees_returns [OF assms(2,3)] obtain B where B: "working_baseFees h = Inr B"
    by blast
  then have ne: "B \<noteq> []" using working_baseFees_length by blast
  from ladder_loop_returns [OF ne sorted_order_in_range]
  obtain out where "ladder_loop B (sorted_order B) (Int64 tip) 16 0 (replicate 16 None) = Inr out"
    by blast
  with assms(1,4) B show ?thesis by (simp add: SuggestFees_def Let_def)
qed

lemma SuggestFees_entries:
  assumes "rpc 100 Latest None = Inr h" and "working_baseFees h = Inr B"
    and "suggestTip rpc (OldestBlock h) (GasUsedRatio h) = Inr tip"
    and "SuggestFees rpc = Inr out"
  shows "length out = 16"
    and "t < 16 \<Longrightarrow> \<exists>bf. suggestBaseFee B (sorted_order B) (real t) = Inr bf
            \<and> out ! t = Some (ladder_entry (float64_of_int (Int64 tip))
                                (maxBaseFee_after B (sorted_order B) (15 - t)) bf)"
proof -
  from assms have "ladder_loop B (sorted_order B) (Int64 tip) 16
                     (maxBaseFee_after B (sorted_order B) (16 - 16)) (replicate 16 None) = Inr out"
    by (simp add: SuggestFees_def Let_def)
  from ladder_loop_entries [OF this]
  have all: "length out = 16
     \<and> (\<forall>t<16. \<exists>bf. suggestBaseFee B (sorted_order B) (real t) = Inr bf
            \<and> out ! t = Some (ladder_entry (float64_of_int (Int64 tip))
                                (maxBaseFee_after B (sorted_order B) (15 - t)) bf))"
    by simp
  then show "length out = 16" by simp
  show "\<exists>bf. suggestBaseFee B (sorted_order B) (real t) = Inr bf
            \<and> out ! t = Some (ladder_entry (float64_of_int (Int64 tip))
                                (maxBaseFee_after B (sorted_order B) (15 - t)) bf)"
    if "t < 16"
    using all that by blast
qed

lemma SuggestFees_error:
  assumes "SuggestFees rpc = Inl e"
  shows "e = Panic \<or> (\<exists>bc nb p. rpc bc nb p = Inl e)"
proof (cases "rpc 100 Latest None")
  case (Inl err)
  with assms have "e = err" by (simp add: SuggestFees_def)
  with Inl show ?thesis by blast
next
  case (Inr h)
  show ?thesis
  proof (cases "working_baseFees h")
    case (Inl e')
    with Inr assms have "e = e'" by (simp add: SuggestFees_def)
    with Inl working_baseFees_error show ?thesis by blast
  next
    case wb: (Inr B)
    show ?thesis
    proof (cases "suggestTip rpc (OldestBlock h) (GasUsedRatio h)")
      case (Inl e')
      with Inr wb assms have "e = e'" by (simp add: SuggestFees_def Let_def)
      with Inl suggestTip_error [of rpc "OldestBlock h" "GasUsedRatio h" e'] show ?thesis by blast
    next
      case tip: (Inr tip)
      with Inr wb assms
      have "ladder_loop B (sorted_order B) (Int64 tip) 16 0 (replicate 16 None) = Inl e"
        by (simp add: SuggestFees_def Let_def)
      then have "e = Panic" by (rule ladder_loop_error)
      then show ?thesis by simp
    qed
  qed
qed

section \<open>Three concrete histories\<close>

subsection \<open>Base fees 1000, 9000, 8000 with two nearly empty blocks\<close>

lemma maxBlockCount_empty_block: "maxBlockCount [1 / 20, 1 / 20] 1 5 = Inr 0"
  and maxBlockCount_empty_block0: "maxBlockCount [1 / 20, 1 / 20] 0 5 = Inr 0"
  by (simp_all add: maxBlockCount_def maxBlockCount_loop.simps)

lemma suggestTip_jump: "suggestTip rpc_jump 0 [1 / 20, 1 / 20] = Inr 5000000000"
  by (simp add: suggestTip_def suggestTip_loop.simps [of _ _ _ 5 1]
      suggestTip_loop.simps [of _ _ _ 5 0] suggestTip_loop.simps [of _ _ _ 5 "- 1"]
      maxBlockCount_empty_block maxBlockCount_empty_block0)

lemma working_jump:
  "working_baseFees \<lparr>OldestBlock = 0, Reward = [], BaseFee = [1000, 9000, 8000],
          GasUsedRatio = [1 / 20, 1 / 20]\<rparr> = Inr [1000, 9000, 9000]"
  by (simp add: working_baseFees_def convert_baseFees_def Uint64_def float64_def Let_def
      round53_numeral)

lemma sorted_order_jump: "sorted_order [1000, 9000, 9000] = [0, 1, 2]"
  by (simp add: sorted_order_def upt_rec)

lemma Int64_fallback: "float64_of_int (Int64 5000000000) = 5000000000"
  by (simp add: Int64_def float64_of_int_def float64_def)

lemma suggestBaseFee_loop_two_steps:
  assumes "o0 < length B" and "o1 < length B"
    and "w0 = pw * exp (real_of_int (int o0 - int (length B) + 1) / t)"
    and "w1 = pw * exp (real_of_int (int o1 - int (length B) + 1) / t)"
    and "3 / 10 \<le> w0 + w1"
  shows "suggestBaseFee_loop B t pw (o0 # o1 # rest) 0 0 0
         = Inr (samplingCurve w0 * (B ! o0) + (1 - samplingCurve w0) * (B ! o1))"
proof (cases "samplingCurve w0 \<ge> 1")
  case True
  with samplingCurve_range [of w0] have "samplingCurve w0 = 1" by linarith
  with assms(1,3) show ?thesis by (simp add: Let_def)
next
  case False
  have "samplingCurve (w0 + w1) = 1"
    using assms(5) by (rule samplingCurve_saturated)
  with False assms(1-4) show ?thesis by (simp add: Let_def)
qed

lemma three_block_weights:
  fixes t :: real
  assumes "0 < t"
  defines "q \<equiv> exp (- 1 / t)"
  defines "pw \<equiv> (1 - exp (- 1 / t)) / (1 - exp (- 3 / t))"
  shows "pw * exp (- 2 / t) = q\<^sup>2 / (1 + q + q\<^sup>2)"
    and "pw * exp (- 1 / t) = q / (1 + q + q\<^sup>2)"
proof -
  have q1: "q \<noteq> 1" unfolding q_def using assms(1) by simp
  have qpos: "0 < q" unfolding q_def by simp
  have e2: "exp (- 2 / t) = q\<^sup>2"
  proof -
    have "- 2 / t = real 2 * (- 1 / t)" by simp
    then show ?thesis unfolding q_def by (simp only: exp_of_nat_mult)
  qed
  have e3: "exp (- 3 / t) = q ^ 3"
  proof -
    have "- 3 / t = real 3 * (- 1 / t)" by simp
    then show ?thesis unfolding q_def by (simp only: exp_of_nat_mult)
  qed
  have fac: "1 - q ^ 3 = (1 - q) * (1 + q + q\<^sup>2)"
    by (simp add: algebra_simps power2_eq_square power3_eq_cube)
  have "0 \<le> q\<^sup>2" by simp
  with qpos have den: "1 + q + q\<^sup>2 \<noteq> 0" by linarith
  have pw: "pw = 1 / (1 + q + q\<^sup>2)"
    unfolding pw_def e3 q_def [symmetric] fac using q1 den by simp
  show "pw * exp (- 2 / t) = q\<^sup>2 / (1 + q + q\<^sup>2)"
    unfolding pw e2 by simp
  show "pw * exp (- 1 / t) = q / (1 + q + q\<^sup>2)"
    unfolding pw q_def [symmetric] by simp
qed

lemma suggestBaseFee_three_blocks:
  fixes t :: real
  assumes "1 / 10 ^ 6 \<le> t" and "length B = 3"
  defines "q \<equiv> exp (- 1 / t)"
  assumes "3 / 10 \<le> q\<^sup>2 / (1 + q + q\<^sup>2) + q / (1 + q + q\<^sup>2)"
  shows "suggestBaseFee B (0 # 1 # rest) t
         = Inr (samplingCurve (q\<^sup>2 / (1 + q + q\<^sup>2)) * (B ! 0)
                + (1 - samplingCurve (q\<^sup>2 / (1 + q + q\<^sup>2))) * (B ! 1))"
proof -
  have "(0::real) < 1 / 10 ^ 6" by simp
  with assms(1) have tpos: "0 < t" by linarith
  let ?pw = "(1 - exp (- 1 / t)) / (1 - exp (- real (length B) / t))"
  have w0: "q\<^sup>2 / (1 + q + q\<^sup>2) = ?pw * exp (real_of_int (int 0 - int (length B) + 1) / t)"
    using three_block_weights(1) [OF tpos] by (simp add: assms(2) q_def)
  have w1: "q / (1 + q + q\<^sup>2) = ?pw * exp (real_of_int (int 1 - int (length B) + 1) / t)"
    using three_block_weights(2) [OF tpos] by (simp add: assms(2) q_def)
  have in0: "0 < length B" and in1: "1 < length B"
    using assms(2) by simp_all
  have "suggestBaseFee B (0 # 1 # rest) t = suggestBaseFee_loop B t ?pw (0 # 1 # rest) 0 0 0"
    using assms(1) by (simp only: suggestBaseFee_def Let_def not_less [symmetric] if_False)
  also have "\<dots> = Inr (samplingCurve (q\<^sup>2 / (1 + q + q\<^sup>2)) * (B ! 0)
                + (1 - samplingCurve (q\<^sup>2 / (1 + q + q\<^sup>2))) * (B ! 1))"
    by (rule suggestBaseFee_loop_two_steps [OF in0 in1 w0 w1 assms(4)])
  finally show ?thesis .
qed

lemma exp_ninth: "81 / 91 \<le> exp (- 1 / 9 :: real) \<and> exp (- 1 / 9 :: real) \<le> 9 / 10"
proof -
  have lo: "10 / 9 \<le> exp (1 / 9 :: real)"
    using exp_ge_add_one_self [of "1 / 9 :: real"] by simp
  have hi: "exp (1 / 9 :: real) \<le> 91 / 81"
    using exp_bound [of "1 / 9 :: real"] by (simp add: power2_eq_square)
  have inv: "exp (- 1 / 9 :: real) = 1 / exp (1 / 9)"
    using exp_minus' [of "1 / 9 :: real"] by simp
  have pos: "0 < exp (1 / 9 :: real)" by simp
  have "1 / exp (1 / 9 :: real) \<le> 1 / (10 / 9)"
    using lo by (intro divide_left_mono) simp_all
  moreover have "1 / (91 / 81) \<le> 1 / exp (1 / 9 :: real)"
    using hi pos by (intro divide_left_mono) simp_all
  ultimately show ?thesis unfolding inv by simp
qed

lemma exp_half: "4 / 7 \<le> exp (- 1 / 2 :: real) \<and> exp (- 1 / 2 :: real) \<le> 2 / 3"
proof -
  have lo: "3 / 2 \<le> exp (1 / 2 :: real)"
    using exp_ge_add_one_self [of "1 / 2 :: real"] by simp
  have hi: "exp (1 / 2 :: real) \<le> 7 / 4"
    using exp_bound [of "1 / 2 :: real"] by (simp add: power2_eq_square)
  have inv: "exp (- 1 / 2 :: real) = 1 / exp (1 / 2)"
    using exp_minus' [of "1 / 2 :: real"] by simp
  have pos: "0 < exp (1 / 2 :: real)" by simp
  have "1 / exp (1 / 2 :: real) \<le> 1 / (3 / 2)"
    using lo by (intro divide_left_mono) simp_all
  moreover have "1 / (7 / 4) \<le> 1 / exp (1 / 2 :: real)"
    using hi pos by (intro divide_left_mono) simp_all
  ultimately show ?thesis unfolding inv by simp
qed

lemma samplingCurve_near_sampleMax:
  assumes "29 / 100 \<le> w" and "w < 3 / 10"
  shows "samplingCurve w \<le> 4 / 100"
proof -
  let ?h = "(3 / 10 - w) * (5 * pi)"
  have "(w - 1 / 10) * (10 * pi) = 2 * pi - 2 * ?h" by (simp add: algebra_simps)
  then have "cos ((w - 1 / 10) * (10 * pi)) = cos (2 * ?h)" by (simp only: cos_2pi_minus)
  also have "\<dots> = 1 - 2 * (sin ?h)\<^sup>2"
    by (rule cos_double_sin)
  finally have "cos ((w - 1 / 10) * (10 * pi)) = 1 - 2 * (sin ?h)\<^sup>2" .
  moreover have "samplingCurve w = (1 - cos ((w - 1 / 10) * (10 * pi))) / 2"
    using assms by (intro samplingCurve_inside) simp_all
  ultimately have c: "samplingCurve w = (sin ?h)\<^sup>2"
    by simp
  have h0: "0 \<le> ?h" using assms by simp
  have "?h \<le> (1 / 100) * (5 * 4)"
    using assms pi_less_4 pi_gt_zero by (intro mult_mono) simp_all
  then have h1: "?h \<le> 2 / 10" by simp
  have "\<bar>sin ?h\<bar> \<le> \<bar>?h\<bar>" by (rule abs_sin_x_le_abs_x)
  also have "\<dots> \<le> 2 / 10" using h0 h1 by simp
  finally have "\<bar>sin ?h\<bar> \<le> 2 / 10" .
  then have "\<bar>sin ?h\<bar>\<^sup>2 \<le> (2 / 10)\<^sup>2"
    by (intro power_mono) simp_all
  then show ?thesis unfolding c by (simp add: power2_eq_square)
qed

lemma samplingCurve_around_middle:
  assumes "15 / 100 \<le> w" and "w \<le> 25 / 100"
  shows "1 / 2 \<le> samplingCurve w"
proof -
  let ?x = "(w - 1 / 10) * (10 * pi)"
  have "- (pi / 2) \<le> ?x - pi" and "?x - pi \<le> pi / 2"
    using assms pi_gt_zero by (simp_all add: algebra_simps)
  then have "0 \<le> cos (?x - pi)" by (rule cos_ge_zero)
  then have "cos ?x \<le> 0" by (simp only: cos_minus_pi)
  then show ?thesis using assms samplingCurve_inside [of w] by simp
qed

lemma weight_ratio_bounds:
  fixes q a b :: real
  assumes "a \<le> q" and "q \<le> b" and "0 < a"
  shows "a\<^sup>2 / (1 + a + a\<^sup>2) \<le> q\<^sup>2 / (1 + q + q\<^sup>2)"
    and "q\<^sup>2 / (1 + q + q\<^sup>2) \<le> b\<^sup>2 / (1 + b + b\<^sup>2)"
proof -
  have mono: "x\<^sup>2 / (1 + x + x\<^sup>2) \<le> y\<^sup>2 / (1 + y + y\<^sup>2)" if "0 < x" "x \<le> y" for x y :: real
  proof -
    have px: "0 < 1 + x + x\<^sup>2" and py: "0 < 1 + y + y\<^sup>2"
      using that by (simp_all add: add_pos_nonneg)
    have "x * x \<le> y * y" using that by (intro mult_mono) simp_all
    moreover have "x * x * y \<le> y * y * x"
    proof -
      have "x * (x * y) \<le> y * (x * y)" using that by (intro mult_right_mono) simp_all
      then show ?thesis by (simp add: algebra_simps)
    qed
    ultimately have "x\<^sup>2 * (1 + y + y\<^sup>2) \<le> y\<^sup>2 * (1 + x + x\<^sup>2)"
      by (simp add: algebra_simps power2_eq_square)
    then have "x\<^sup>2 * (1 + y + y\<^sup>2) / ((1 + x + x\<^sup>2) * (1 + y + y\<^sup>2))
               \<le> y\<^sup>2 * (1 + x + x\<^sup>2) / ((1 + x + x\<^sup>2) * (1 + y + y\<^sup>2))"
      using px py by (intro divide_right_mono) simp_all
    moreover have "x\<^sup>2 * (1 + y + y\<^sup>2) / ((1 + x + x\<^sup>2) * (1 + y + y\<^sup>2))
                   = x\<^sup>2 / (1 + x + x\<^sup>2)"
      using py by simp
    moreover have "y\<^sup>2 * (1 + x + x\<^sup>2) / ((1 + x + x\<^sup>2) * (1 + y + y\<^sup>2))
                   = y\<^sup>2 / (1 + y + y\<^sup>2)"
      using px by simp
    ultimately show ?thesis by simp
  qed
  show "a\<^sup>2 / (1 + a + a\<^sup>2) \<le> q\<^sup>2 / (1 + q + q\<^sup>2)"
    using assms by (intro mono) simp_all
  show "q\<^sup>2 / (1 + q + q\<^sup>2) \<le> b\<^sup>2 / (1 + b + b\<^sup>2)"
    using assms by (intro mono) simp_all
qed

lemma weight_second_bound:
  fixes q a k :: real
  assumes "a \<le> q" and "q \<le> 1" and "0 < a" and "0 \<le> k" and "k * 3 \<le> a"
  shows "k \<le> q / (1 + q + q\<^sup>2)"
proof -
  have qpos: "0 < q" using assms(1,3) by linarith
  define s where "s = q\<^sup>2"
  have s1: "s \<le> 1" unfolding s_def using assms(2) qpos by (simp add: power_le_one)
  have s0: "0 \<le> s" unfolding s_def by simp
  have "k * (1 + q + s) \<le> k * 3"
    using assms(2,4) s1 by (intro mult_left_mono) simp_all
  with assms(1,5) have "k * (1 + q + s) \<le> q" by linarith
  moreover have "0 < 1 + q + s" using qpos s0 by linarith
  ultimately show ?thesis unfolding s_def by (simp add: pos_le_divide_eq)
qed

lemma jump_factor_9:
  "\<exists>r. suggestBaseFee [1000, 9000, 9000] [0, 1, 2] 9 = Inr r \<and> 8680 \<le> r"
proof -
  define q :: real where "q = exp (- 1 / 9)"
  let ?w = "q\<^sup>2 / (1 + q + q\<^sup>2)"
  have q: "81 / 91 \<le> q" "q \<le> 9 / 10"
    unfolding q_def using exp_ninth by simp_all
  have lo: "(81 / 91)\<^sup>2 / (1 + 81 / 91 + (81 / 91)\<^sup>2) \<le> ?w"
    by (rule weight_ratio_bounds(1) [OF q]) simp
  have hi: "?w \<le> (9 / 10)\<^sup>2 / (1 + 9 / 10 + (9 / 10)\<^sup>2)"
    by (rule weight_ratio_bounds(2) [OF q]) simp
  have w29: "29 / 100 \<le> ?w"
  proof -
    have "(29 / 100 :: real) \<le> (81 / 91)\<^sup>2 / (1 + 81 / 91 + (81 / 91)\<^sup>2)"
      by (simp add: power2_eq_square)
    with lo show ?thesis by linarith
  qed
  have w30: "?w < 3 / 10"
  proof -
    have "(9 / 10)\<^sup>2 / (1 + 9 / 10 + (9 / 10)\<^sup>2) < (3 / 10 :: real)"
      by (simp add: power2_eq_square)
    with hi show ?thesis by linarith
  qed
  have c: "samplingCurve ?w \<le> 4 / 100"
    by (rule samplingCurve_near_sampleMax [OF w29 w30])
  have "1 / 100 \<le> q / (1 + q + q\<^sup>2)"
    using q by (intro weight_second_bound [of "81 / 91"]) simp_all
  with w29 have tot: "3 / 10 \<le> ?w + q / (1 + q + q\<^sup>2)"
    by linarith
  have eq: "suggestBaseFee [1000, 9000, 9000] [0, 1, 2] 9
            = Inr (samplingCurve ?w * ([1000, 9000, 9000] ! 0)
                   + (1 - samplingCurve ?w) * ([1000, 9000, 9000] ! 1))"
    unfolding q_def by (rule suggestBaseFee_three_blocks [OF _ _ tot [unfolded q_def]]) simp_all
  have "8680 \<le> samplingCurve ?w * ([1000, 9000, 9000] ! 0)
                   + (1 - samplingCurve ?w) * ([1000, 9000, 9000] ! 1)"
    using c by simp
  with eq show ?thesis by blast
qed

lemma jump_factor_2:
  "\<exists>r. suggestBaseFee [1000, 9000, 9000] [0, 1, 2] 2 = Inr r \<and> r \<le> 5000"
proof -
  define q :: real where "q = exp (- 1 / 2)"
  let ?w = "q\<^sup>2 / (1 + q + q\<^sup>2)"
  have q: "4 / 7 \<le> q" "q \<le> 2 / 3"
    unfolding q_def using exp_half by simp_all
  have lo: "(4 / 7)\<^sup>2 / (1 + 4 / 7 + (4 / 7)\<^sup>2) \<le> ?w"
    by (rule weight_ratio_bounds(1) [OF q]) simp
  have hi: "?w \<le> (2 / 3)\<^sup>2 / (1 + 2 / 3 + (2 / 3)\<^sup>2)"
    by (rule weight_ratio_bounds(2) [OF q]) simp
  have w15: "15 / 100 \<le> ?w"
  proof -
    have "(15 / 100 :: real) \<le> (4 / 7)\<^sup>2 / (1 + 4 / 7 + (4 / 7)\<^sup>2)"
      by (simp add: power2_eq_square)
    with lo show ?thesis by linarith
  qed
  have w25: "?w \<le> 25 / 100"
  proof -
    have "(2 / 3)\<^sup>2 / (1 + 2 / 3 + (2 / 3)\<^sup>2) \<le> (25 / 100 :: real)"
      by (simp add: power2_eq_square)
    with hi show ?thesis by linarith
  qed
  have c: "1 / 2 \<le> samplingCurve ?w"
    by (rule samplingCurve_around_middle [OF w15 w25])
  have "15 / 100 \<le> q / (1 + q + q\<^sup>2)"
    using q by (intro weight_second_bound [of "4 / 7"]) simp_all
  with w15 have tot: "3 / 10 \<le> ?w + q / (1 + q + q\<^sup>2)"
    by linarith
  have eq: "suggestBaseFee [1000, 9000, 9000] [0, 1, 2] 2
            = Inr (samplingCurve ?w * ([1000, 9000, 9000] ! 0)
                   + (1 - samplingCurve ?w) * ([1000, 9000, 9000] ! 1))"
    unfolding q_def by (rule suggestBaseFee_three_blocks [OF _ _ tot [unfolded q_def]]) simp_all
  have "samplingCurve ?w * ([1000, 9000, 9000] ! 0)
                   + (1 - samplingCurve ?w) * ([1000, 9000, 9000] ! 1) \<le> 5000"
    using c by simp
  with eq show ?thesis by blast
qed

lemma jump_projection_le:
  "suggestBaseFee [1000, 9000, 9000] [0, 1, 2] (real t) = Inr bf \<Longrightarrow> bf \<le> 9000"
proof -
  assume a: "suggestBaseFee [1000, 9000, 9000] [0, 1, 2] (real t) = Inr bf"
  have "\<exists>r. suggestBaseFee [1000, 9000, 9000] [0, 1, 2] (real t) = Inr r
          \<and> Min (set [1000, 9000, 9000]) \<le> r \<and> r \<le> Max (set [1000, 9000, 9000])"
    by (rule suggestBaseFee_range) (simp_all add: upt_rec)
  with a show ?thesis by simp
qed

lemma jump_running_max: "8680 \<le> maxBaseFee_after [1000, 9000, 9000] [0, 1, 2] 13"
proof -
  obtain bf9 where bf9: "suggestBaseFee [1000, 9000, 9000] [0, 1, 2] (real 9) = Inr bf9"
      "8680 \<le> bf9"
    using jump_factor_9 by auto
  have "bf9 \<le> maxBaseFee_after [1000, 9000, 9000] [0, 1, 2] (16 - 9)"
    by (rule maxBaseFee_after_ge_bf [OF bf9(1)]) simp
  also have "\<dots> \<le> maxBaseFee_after [1000, 9000, 9000] [0, 1, 2] 13"
    by (rule maxBaseFee_after_mono) simp
  finally show ?thesis using bf9(2) by linarith
qed

lemma jump_returns:
  "rpc_jump 100 Latest None
     = Inr \<lparr>OldestBlock = 0, Reward = [], BaseFee = [1000, 9000, 8000],
            GasUsedRatio = [1 / 20, 1 / 20]\<rparr>"
  "suggestTip rpc_jump (OldestBlock \<lparr>OldestBlock = 0, Reward = [], BaseFee = [1000, 9000, 8000],
            GasUsedRatio = [1 / 20, 1 / 20]\<rparr>)
     (GasUsedRatio \<lparr>OldestBlock = 0, Reward = [], BaseFee = [1000, 9000, 8000],
            GasUsedRatio = [1 / 20, 1 / 20]\<rparr>) = Inr 5000000000"
  "\<exists>out. SuggestFees rpc_jump = Inr out"
proof -
  let ?h = "\<lparr>OldestBlock = 0, Reward = [], BaseFee = [1000, 9000, 8000],
             GasUsedRatio = [1 / 20, 1 / 20]\<rparr>"
  show rpc: "rpc_jump 100 Latest None = Inr ?h" by (simp add: rpc_jump_def)
  show tip: "suggestTip rpc_jump (OldestBlock ?h) (GasUsedRatio ?h) = Inr 5000000000"
    using suggestTip_jump by simp
  show "\<exists>out. SuggestFees rpc_jump = Inr out"
    using SuggestFees_returns [OF rpc _ _ tip] by auto
qed

subsection \<open>The same base fees without gas ratios\<close>

lemma working_short:
  "working_baseFees \<lparr>OldestBlock = 0, Reward = [], BaseFee = [1000, 9000, 8000],
          GasUsedRatio = []\<rparr> = Inr [1000, 9000, 9000]"
  by (simp add: working_baseFees_def convert_baseFees_def Uint64_def float64_def Let_def
      round53_numeral)

lemma short_ratios_returns:
  "rpc_short_ratios 100 Latest None
     = Inr \<lparr>OldestBlock = 0, Reward = [], BaseFee = [1000, 9000, 8000], GasUsedRatio = []\<rparr>"
  "\<exists>out. SuggestFees rpc_short_ratios = Inr out \<and> length out = 16"
proof -
  let ?h = "\<lparr>OldestBlock = 0, Reward = [], BaseFee = [1000, 9000, 8000], GasUsedRatio = []\<rparr>"
  show rpc: "rpc_short_ratios 100 Latest None = Inr ?h" by (simp add: rpc_short_ratios_def)
  have tip: "suggestTip rpc_short_ratios (OldestBlock ?h) (GasUsedRatio ?h) = Inr 5000000000"
    using suggestTip_no_ratio by simp
  from SuggestFees_returns [OF rpc _ _ tip] obtain out
    where out: "SuggestFees rpc_short_ratios = Inr out"
    by auto
  from SuggestFees_entries(1) [OF rpc working_short tip out] out
  show "\<exists>out. SuggestFees rpc_short_ratios = Inr out \<and> length out = 16"
    by blast
qed

subsection \<open>Two base fees and one reward\<close>

lemma maxBlockCount_half: "maxBlockCount [1 / 2] 0 5 = Inr 1"
  by (simp add: maxBlockCount_def maxBlockCount_loop.simps)

lemma suggestTip_reward: "suggestTip (rpc_reward r) 0 [1 / 2] = Inr r"
  by (simp add: suggestTip_def suggestTip_loop.simps [of _ _ _ 5 0]
      suggestTip_loop.simps [of _ _ _ 4 "- 2"] maxBlockCount_half rpc_reward_def)

lemma working_reward:
  "working_baseFees \<lparr>OldestBlock = 0, Reward = [[r]], BaseFee = [8, 8],
          GasUsedRatio = [1 / 2]\<rparr> = Inr [8, 9]"
  by (simp add: working_baseFees_def convert_baseFees_def Uint64_def float64_def Let_def
      round53_numeral)

lemma sorted_order_reward: "sorted_order [8, 9] = [0, 1]"
  by (simp add: sorted_order_def upt_rec)

lemma bitlen_two_to_63: "bitlen 9223372036854775808 = 64"
  by (simp add: bitlen.simps)

lemma Int64_huge: "float64_of_int (Int64 9223372036854775808) = - 9223372036854775808"
  by (simp add: Int64_def float64_of_int_def float64_def bitlen_two_to_63 Let_def)

lemma reward_returns:
  "rpc_reward r 100 Latest None
     = Inr \<lparr>OldestBlock = 0, Reward = [[r]], BaseFee = [8, 8], GasUsedRatio = [1 / 2]\<rparr>"
  "suggestTip (rpc_reward r)
     (OldestBlock \<lparr>OldestBlock = 0, Reward = [[r]], BaseFee = [8, 8], GasUsedRatio = [1 / 2]\<rparr>)
     (GasUsedRatio \<lparr>OldestBlock = 0, Reward = [[r]], BaseFee = [8, 8], GasUsedRatio = [1 / 2]\<rparr>)
     = Inr r"
  "\<exists>out. SuggestFees (rpc_reward r) = Inr out"
proof -
  let ?h = "\<lparr>OldestBlock = 0, Reward = [[r]], BaseFee = [8, 8], GasUsedRatio = [1 / 2]\<rparr>"
  show rpc: "rpc_reward r 100 Latest None = Inr ?h" by (simp add: rpc_reward_def)
  show tip: "suggestTip (rpc_reward r) (OldestBlock ?h) (GasUsedRatio ?h) = Inr r"
    using suggestTip_reward by simp
  show "\<exists>out. SuggestFees (rpc_reward r) = Inr out"
    using SuggestFees_returns [OF rpc _ _ tip] by auto
qed

lemma suggestBaseFee_loop_first_saturates:
  assumes "o0 < length B"
    and "3 / 10 \<le> pw * exp (real_of_int (int o0 - int (length B) + 1) / t)"
  shows "suggestBaseFee_loop B t pw (o0 # rest) 0 0 0 = Inr (B ! o0)"
proof -
  have "samplingCurve (pw * exp (real_of_int (int o0 - int (length B) + 1) / t)) = 1"
    using assms(2) by (rule samplingCurve_saturated)
  with assms(1) show ?thesis by (simp add: Let_def)
qed

lemma reward_projection:
  fixes t :: real
  assumes "2 \<le> t"
  shows "suggestBaseFee [8, 9] [0, 1] t = Inr 8"
proof -
  let ?B = "[8, 9] :: real list"
  let ?pw = "(1 - exp (- 1 / t)) / (1 - exp (- real (length ?B) / t))"
  define q where "q = exp (- 1 / t)"
  have tpos: "0 < t" using assms by linarith
  have big: "1 / 10 ^ 6 \<le> t" using assms by simp
  have qpos: "0 < q" unfolding q_def by simp
  have q1: "q < 1" unfolding q_def using tpos by simp
  have "1 / t \<le> 1 / 2" using assms by (simp add: field_simps)
  moreover have "1 + (- 1 / t) \<le> q" unfolding q_def by (rule exp_ge_add_one_self)
  ultimately have qge: "1 / 2 \<le> q" by simp
  have e2: "exp (- 2 / t) = q * q"
  proof -
    have "- 2 / t = (- 1 / t) + (- 1 / t)" by simp
    then show ?thesis unfolding q_def by (simp only: exp_add)
  qed
  have fac: "1 - q * q = (1 - q) * (1 + q)" by (simp add: algebra_simps)
  have l2: "- real (length ?B) / t = - 2 / t" by simp
  have pw: "?pw = 1 / (1 + q)"
    unfolding l2 e2 q_def [symmetric] fac using q1 qpos by simp
  have "3 / 10 * (1 + q) \<le> q" using qge by simp
  then have "3 / 10 \<le> q / (1 + q)"
    using qpos by (simp add: pos_le_divide_eq)
  also have "q / (1 + q) = ?pw * exp (real_of_int (int 0 - int (length ?B) + 1) / t)"
    unfolding pw by (simp add: q_def)
  finally have w: "3 / 10 \<le> ?pw * exp (real_of_int (int 0 - int (length ?B) + 1) / t)" .
  have "suggestBaseFee ?B [0, 1] t = suggestBaseFee_loop ?B t ?pw [0, 1] 0 0 0"
    using big by (simp only: suggestBaseFee_def Let_def not_less [symmetric] if_False)
  also have "\<dots> = Inr (?B ! 0)"
    by (rule suggestBaseFee_loop_first_saturates [OF _ w]) simp
  finally show ?thesis by simp
qed

lemma reward_projection_15: "suggestBaseFee [8, 9] [0, Suc 0] 15 = Inr 8"
  and reward_projection_14: "suggestBaseFee [8, 9] [0, Suc 0] 14 = Inr 8"
  using reward_projection [of 15] reward_projection [of 14] by simp_all

lemma Int64_two_to_53_plus_1:
  "float64_of_int (Int64 9007199254740993) = 9007199254740992"
  by (simp add: Int64_def float64_of_int_def float64_def bitlen_two_to_53_plus_1 Let_def)

section \<open>Properties of the ladder\<close>

text \<open>
  C1 (as stated, refuted).  For the history with base fees 1000, 9000, 8000 wei and gas
  ratios 0.05, 0.05 (all shape invariants hold, all fees are non-negative, the tip is the
  fallback of 5 gwei), \<^verbatim>\<open>out[0].maxFeePerGas\<close> is 5000009000 while \<^verbatim>\<open>out[2].maxFeePerGas\<close> is at
  least 5000009600: the ladder rises from time factor 0 to time factor 2.  At time factor 9
  the projection is close to 9000, at time factor 2 it is below 5000; the dip adds a quarter
  of the difference to the entry of time factor 2, and the entry of time factor 0, which is
  not in a dip, gets nothing on top of 9000.
\<close>

theorem C1_maxFee_rises:
  "maxFee_at (SuggestFees rpc_jump) 0 = Some 5000009000
   \<and> maxFee_at (SuggestFees rpc_jump) 2 \<noteq> None
   \<and> 5000009600 \<le> the (maxFee_at (SuggestFees rpc_jump) 2)"
proof -
  let ?h = "\<lparr>OldestBlock = 0, Reward = [], BaseFee = [1000, 9000, 8000],
             GasUsedRatio = [1 / 20, 1 / 20]\<rparr>"
  let ?B = "[1000, 9000, 9000] :: real list"
  let ?ord = "[0, 1, 2] :: nat list"
  have rpc: "rpc_jump 100 Latest None = Inr ?h" by (simp add: rpc_jump_def)
  have wb: "working_baseFees ?h = Inr ?B" by (rule working_jump)
  have tip: "suggestTip rpc_jump (OldestBlock ?h) (GasUsedRatio ?h) = Inr 5000000000"
    using suggestTip_jump by simp
  obtain out where out: "SuggestFees rpc_jump = Inr out"
    using SuggestFees_returns [OF rpc _ _ tip] by auto
  note ent = SuggestFees_entries(2) [OF rpc wb tip out, unfolded sorted_order_jump Int64_fallback]
  let ?M = "\<lambda>k. maxBaseFee_after ?B ?ord k"
  have Mle: "?M k \<le> 9000" for k
  proof (rule maxBaseFee_after_le)
    show "\<forall>t bf. suggestBaseFee ?B ?ord (real t) = Inr bf \<longrightarrow> bf \<le> 9000"
      using jump_projection_le by blast
    show "(0::real) \<le> 9000" by simp
  qed
  \<comment> \<open>time factor 0\<close>
  have bf0: "suggestBaseFee ?B ?ord (real 0) = Inr 9000"
    by (simp add: suggestBaseFee_def)
  have "\<exists>bf. suggestBaseFee ?B ?ord (real 0) = Inr bf
        \<and> out ! 0 = Some (ladder_entry 5000000000 (?M (15 - 0)) bf)"
    by (rule ent) simp
  with bf0 have o0: "out ! 0 = Some (ladder_entry 5000000000 (?M 15) 9000)" by simp
  have "MaxFeePerGas (ladder_entry 5000000000 (?M 15) 9000) = 5000009000"
  proof (cases "9000 > ?M 15")
    case True
    then show ?thesis by (simp add: ladder_entry_def round53_numeral)
  next
    case False
    with Mle [of 15] have "?M 15 = 9000" by linarith
    then show ?thesis
      by (simp add: ladder_entry_def dip_tip_def extraTipRatio_def round53_zero round53_numeral)
  qed
  with o0 out have r0: "maxFee_at (SuggestFees rpc_jump) 0 = Some 5000009000"
    by (simp add: maxFee_at_def)
  \<comment> \<open>time factor 2, after the high projection at time factor 9\<close>
  obtain bf9 where bf9: "suggestBaseFee ?B ?ord (real 9) = Inr bf9" "8680 \<le> bf9"
    using jump_factor_9 by auto
  obtain bf2 where bf2: "suggestBaseFee ?B ?ord (real 2) = Inr bf2" "bf2 \<le> 5000"
    using jump_factor_2 by auto
  have "bf9 \<le> ?M (16 - 9)"
    by (rule maxBaseFee_after_ge_bf [OF bf9(1)]) simp
  also have "\<dots> \<le> ?M 13"
    by (rule maxBaseFee_after_mono) simp
  finally have M13: "8680 \<le> ?M 13" using bf9(2) by linarith
  have "\<exists>bf. suggestBaseFee ?B ?ord (real 2) = Inr bf
        \<and> out ! 2 = Some (ladder_entry 5000000000 (?M (15 - 2)) bf)"
    by (rule ent) simp
  with bf2(1) have o2: "out ! 2 = Some (ladder_entry 5000000000 (?M 13) bf2)" by simp
  have "5000009600 \<le> MaxFeePerGas (ladder_entry 5000000000 (?M 13) bf2)"
  proof -
    define m where "m = ?M 13"
    have m: "8680 \<le> m" using M13 by (simp add: m_def)
    have nd: "\<not> bf2 > m"
      using m bf2(2) by linarith
    define r1 where "r1 = round53 (m - bf2)"
    define r2 where "r2 = round53 (r1 * extraTipRatio)"
    define d where "d = round53 (5000000000 + r2)"
    have "3680 \<le> m - bf2" using m bf2(2) by linarith
    then have "3680 \<le> r1"
      unfolding r1_def by (intro round53_ge_numeral) simp_all
    then have "920 \<le> r1 * extraTipRatio"
      by (simp add: extraTipRatio_def)
    then have "920 \<le> r2"
      unfolding r2_def by (intro round53_ge_numeral) simp_all
    then have "5000000920 \<le> 5000000000 + r2" by simp
    then have "5000000920 \<le> d"
      unfolding d_def by (intro round53_ge_numeral) simp_all
    with m have "5000009600 \<le> m + d" by linarith
    then have "5000009600 \<le> round53 (m + d)"
      by (intro round53_ge_numeral) simp_all
    with nd have "5000009600 \<le> MaxFeePerGas (ladder_entry 5000000000 m bf2)"
      by (simp add: ladder_entry_def dip_tip_def d_def r2_def r1_def)
    then show ?thesis by (simp add: m_def)
  qed
  with o2 out have r2: "maxFee_at (SuggestFees rpc_jump) 2 \<noteq> None
      \<and> 5000009600 \<le> the (maxFee_at (SuggestFees rpc_jump) 2)"
    by (simp add: maxFee_at_def)
  from r0 r2 show ?thesis by simp
qed

text \<open>
  C1 (amended).  For every history for which a ladder is returned, \<^verbatim>\<open>out[t].maxFeePerGas\<close> is
  the sum, rounded to 53 bits, of \<^verbatim>\<open>out[t].maxPriorityFeePerGas\<close> and the value that the
  running maximum \<^verbatim>\<open>maxBaseFee\<close> of the loop has after the iteration for \<open>t\<close>, and that running
  maximum is non-increasing as the time factor \<open>t\<close> increases from 0 to 15.  The fee
  \<^verbatim>\<open>maxFeePerGas\<close> itself need not be.
\<close>

theorem C1_running_maximum_monotone:
  assumes "rpc 100 Latest None = Inr h" and "working_baseFees h = Inr B"
    and "SuggestFees rpc = Inr out" and "t \<le> t'" and "t' \<le> 15"
  shows "\<exists>e e'. out ! t = Some e \<and> out ! t' = Some e'
     \<and> MaxFeePerGas e
         = round53 (maxBaseFee_after B (sorted_order B) (16 - t) + MaxPriorityFeePerGas e)
     \<and> MaxFeePerGas e'
         = round53 (maxBaseFee_after B (sorted_order B) (16 - t') + MaxPriorityFeePerGas e')
     \<and> maxBaseFee_after B (sorted_order B) (16 - t')
         \<le> maxBaseFee_after B (sorted_order B) (16 - t)"
proof -
  from SuggestFees_unfold [OF assms(3)] assms(1,2) obtain tip where
    tip: "suggestTip rpc (OldestBlock h) (GasUsedRatio h) = Inr tip"
    by auto
  note ent = SuggestFees_entries(2) [OF assms(1,2) tip assms(3)]
  let ?ord = "sorted_order B"
  let ?tp = "float64_of_int (Int64 tip)"
  have t15: "t \<le> 15" using assms(4,5) by simp
  obtain bf where bf: "suggestBaseFee B ?ord (real t) = Inr bf"
    and e: "out ! t = Some (ladder_entry ?tp (maxBaseFee_after B ?ord (15 - t)) bf)"
    using ent [of t] t15 by auto
  obtain bf' where bf': "suggestBaseFee B ?ord (real t') = Inr bf'"
    and e': "out ! t' = Some (ladder_entry ?tp (maxBaseFee_after B ?ord (15 - t')) bf')"
    using ent [of t'] assms(5) by auto
  have "maxBaseFee_after B ?ord (16 - t') \<le> maxBaseFee_after B ?ord (16 - t)"
    using assms(4) by (intro maxBaseFee_after_mono) simp
  with e e' ladder_entry_running_max [OF bf t15, of ?tp]
    ladder_entry_running_max [OF bf' assms(5), of ?tp]
  show ?thesis by blast
qed

theorem C1_running_maximum_monotone_witness:
  "\<exists>out. rpc_jump 100 Latest None
       = Inr \<lparr>OldestBlock = 0, Reward = [], BaseFee = [1000, 9000, 8000],
              GasUsedRatio = [1 / 20, 1 / 20]\<rparr>
     \<and> working_baseFees \<lparr>OldestBlock = 0, Reward = [], BaseFee = [1000, 9000, 8000],
              GasUsedRatio = [1 / 20, 1 / 20]\<rparr> = Inr [1000, 9000, 9000]
     \<and> SuggestFees rpc_jump = Inr out \<and> (0::nat) \<le> 2 \<and> (2::nat) \<le> 15
     \<and> (\<exists>e e'. out ! 0 = Some e \<and> out ! 2 = Some e'
           \<and> MaxFeePerGas e
               = round53 (maxBaseFee_after [1000, 9000, 9000] (sorted_order [1000, 9000, 9000])
                            (16 - 0) + MaxPriorityFeePerGas e)
           \<and> MaxFeePerGas e'
               = round53 (maxBaseFee_after [1000, 9000, 9000] (sorted_order [1000, 9000, 9000])
                            (16 - 2) + MaxPriorityFeePerGas e')
           \<and> maxBaseFee_after [1000, 9000, 9000] (sorted_order [1000, 9000, 9000]) (16 - 2)
               \<le> maxBaseFee_after [1000, 9000, 9000] (sorted_order [1000, 9000, 9000]) (16 - 0))"
proof -
  from jump_returns(3) obtain out where out: "SuggestFees rpc_jump = Inr out" by blast
  have le: "(0::nat) \<le> 2" "(2::nat) \<le> 15" by simp_all
  from C1_running_maximum_monotone [OF jump_returns(1) working_jump out le]
    jump_returns(1) working_jump out le
  show ?thesis by blast
qed

text \<open>
  C7 (as stated, refuted).  A history with three base fees and no gas ratio breaks
  \<open>len(baseFeePerGas) = len(gasUsedRatio) + 1\<close>, and \<^verbatim>\<open>SuggestFees\<close> returns a ladder of 16
  entries for it.  For a history with no base fee the program panics (index out of range at
  \<^verbatim>\<open>baseFees[len(baseFees)-1]\<close>); it does not return an error.
\<close>

theorem C7_malformed_history_not_rejected:
  "rpc_short_ratios 100 Latest None
     = Inr \<lparr>OldestBlock = 0, Reward = [], BaseFee = [1000, 9000, 8000], GasUsedRatio = []\<rparr>
   \<and> length [1000, 9000, 8000 :: nat] \<noteq> length ([] :: real list) + 1
   \<and> \<not> isl (SuggestFees rpc_short_ratios)
   \<and> length (projr (SuggestFees rpc_short_ratios)) = 16
   \<and> rpc_empty 100 Latest None
     = Inr \<lparr>OldestBlock = 0, Reward = [], BaseFee = [], GasUsedRatio = []\<rparr>
   \<and> SuggestFees rpc_empty = Inl Panic"
proof -
  from short_ratios_returns(2) have "\<not> isl (SuggestFees rpc_short_ratios)
      \<and> length (projr (SuggestFees rpc_short_ratios)) = 16"
    by auto
  moreover have "SuggestFees rpc_empty = Inl Panic"
    by (simp add: SuggestFees_def rpc_empty_def working_baseFees_def convert_baseFees_def)
  ultimately show ?thesis
    using short_ratios_returns(1) by (simp add: rpc_empty_def)
qed

text \<open>
  C7 (amended).  \<^verbatim>\<open>SuggestFees\<close> does not check the shape of the fetched history.  When
  \<^verbatim>\<open>baseFeePerGas\<close> is non-empty and longer than \<^verbatim>\<open>gasUsedRatio\<close>, and the tip estimation
  succeeds, it returns a ladder of 16 entries, whether or not
  \<open>len(baseFeePerGas) = len(gasUsedRatio) + 1\<close>.  Every error it returns is an error that the
  RPC client returned to it.
\<close>

theorem C7_no_shape_validation:
  "(rpc 100 Latest None = Inr h \<and> BaseFee h \<noteq> []
      \<and> length (GasUsedRatio h) < length (BaseFee h)
      \<and> suggestTip rpc (OldestBlock h) (GasUsedRatio h) = Inr tip
    \<longrightarrow> (\<exists>out. SuggestFees rpc = Inr out \<and> length out = 16 \<and> (\<forall>t<16. out ! t \<noteq> None)))
   \<and> (SuggestFees rpc = Inl (RpcError msg)
    \<longrightarrow> (\<exists>bc nb p. rpc bc nb p = Inl (RpcError msg)))"
proof (intro conjI impI)
  assume a: "rpc 100 Latest None = Inr h \<and> BaseFee h \<noteq> []
      \<and> length (GasUsedRatio h) < length (BaseFee h)
      \<and> suggestTip rpc (OldestBlock h) (GasUsedRatio h) = Inr tip"
  then have rpc: "rpc 100 Latest None = Inr h" and ne: "BaseFee h \<noteq> []"
    and len: "length (GasUsedRatio h) < length (BaseFee h)"
    and tip: "suggestTip rpc (OldestBlock h) (GasUsedRatio h) = Inr tip"
    by simp_all
  from SuggestFees_returns [OF rpc ne len tip] obtain out where out: "SuggestFees rpc = Inr out"
    by blast
  from working_baseFees_returns [OF ne len] obtain B where wb: "working_baseFees h = Inr B"
    by blast
  note ent = SuggestFees_entries [OF rpc wb tip out]
  have "out ! t \<noteq> None" if "t < 16" for t
    using ent(2) [OF that] by auto
  with out ent(1) show "\<exists>out. SuggestFees rpc = Inr out \<and> length out = 16
                          \<and> (\<forall>t<16. out ! t \<noteq> None)"
    by blast
next
  assume "SuggestFees rpc = Inl (RpcError msg)"
  from SuggestFees_error [OF this] show "\<exists>bc nb p. rpc bc nb p = Inl (RpcError msg)"
    by simp
qed

theorem C7_no_shape_validation_witness:
  "rpc_short_ratios 100 Latest None
     = Inr \<lparr>OldestBlock = 0, Reward = [], BaseFee = [1000, 9000, 8000], GasUsedRatio = []\<rparr>
   \<and> [1000, 9000, 8000 :: nat] \<noteq> []
   \<and> length ([] :: real list) < length [1000, 9000, 8000 :: nat]
   \<and> suggestTip rpc_short_ratios 0 [] = Inr 5000000000
   \<and> (\<exists>out. SuggestFees rpc_short_ratios = Inr out \<and> length out = 16
         \<and> out ! 0 \<noteq> None \<and> out ! 15 \<noteq> None)
   \<and> SuggestFees rpc_fail = Inl (RpcError ''connection refused'')
   \<and> (\<exists>bc nb p. rpc_fail bc nb p = Inl (RpcError ''connection refused''))"
proof -
  let ?h = "\<lparr>OldestBlock = 0, Reward = [], BaseFee = [1000, 9000, 8000], GasUsedRatio = []\<rparr>"
  have hyp: "rpc_short_ratios 100 Latest None = Inr ?h \<and> BaseFee ?h \<noteq> []
      \<and> length (GasUsedRatio ?h) < length (BaseFee ?h)
      \<and> suggestTip rpc_short_ratios (OldestBlock ?h) (GasUsedRatio ?h) = Inr 5000000000"
    using short_ratios_returns(1) suggestTip_no_ratio [of rpc_short_ratios] by simp
  have fail: "SuggestFees rpc_fail = Inl (RpcError ''connection refused'')"
    by (simp add: SuggestFees_def rpc_fail_def)
  from C7_no_shape_validation [of rpc_short_ratios ?h 5000000000 "''connection refused''"] hyp
  have "\<exists>out. SuggestFees rpc_short_ratios = Inr out \<and> length out = 16
          \<and> (\<forall>t<16. out ! t \<noteq> None)"
    by blast
  then have one: "\<exists>out. SuggestFees rpc_short_ratios = Inr out \<and> length out = 16
          \<and> out ! 0 \<noteq> None \<and> out ! 15 \<noteq> None"
    by auto
  from C7_no_shape_validation [of rpc_fail ?h 5000000000 "''connection refused''"] fail
  have two: "\<exists>bc nb p. rpc_fail bc nb p = Inl (RpcError ''connection refused'')"
    by blast
  from hyp one fail two show ?thesis by simp
qed

text \<open>
  C8 (as stated, refuted).  A history with base fees 8, 8 wei, gas ratio 0.5 and the reward
  \<open>2\<^sup>6\<^sup>3\<close> wei has non-negative base fees and rewards only.  The tip is \<open>2\<^sup>6\<^sup>3\<close>, \<^verbatim>\<open>tip.Int64()\<close>
  is \<open>-2\<^sup>6\<^sup>3\<close>, and \<^verbatim>\<open>out[15].maxPriorityFeePerGas\<close> is \<open>-2\<^sup>6\<^sup>3\<close>, a negative number.
\<close>

theorem C8_negative_priority_fee:
  "rpc_reward (2 ^ 63) 100 Latest None
     = Inr \<lparr>OldestBlock = 0, Reward = [[2 ^ 63]], BaseFee = [8, 8], GasUsedRatio = [1 / 2]\<rparr>
   \<and> maxPriorityFee_at (SuggestFees (rpc_reward (2 ^ 63))) 15 = Some (- (2 ^ 63))"
proof -
  let ?r = "9223372036854775808 :: nat"
  from reward_returns(3) obtain out where out: "SuggestFees (rpc_reward ?r) = Inr out" by blast
  have "\<exists>bf. suggestBaseFee [8, 9] (sorted_order [8, 9]) (real 15) = Inr bf
          \<and> out ! 15 = Some (ladder_entry (float64_of_int (Int64 ?r))
                               (maxBaseFee_after [8, 9] (sorted_order [8, 9]) (15 - 15)) bf)"
    by (rule SuggestFees_entries(2) [OF reward_returns(1) working_reward reward_returns(2) out])
      simp
  then obtain bf where bf: "suggestBaseFee [8, 9] [0, 1] (real 15) = Inr bf"
    and e: "out ! 15 = Some (ladder_entry (- 9223372036854775808) 0 bf)"
    unfolding sorted_order_reward Int64_huge by auto
  have "\<exists>r. suggestBaseFee [8, 9] [0, 1] (real 15) = Inr r
          \<and> Min (set [8, 9]) \<le> r \<and> r \<le> Max (set [8, 9])"
    by (rule suggestBaseFee_range) (simp_all add: upt_rec)
  with bf have "8 \<le> bf" by simp
  then have "MaxPriorityFeePerGas (ladder_entry (- 9223372036854775808) 0 bf)
             = - 9223372036854775808"
    by (simp add: ladder_entry_def)
  with e out have "maxPriorityFee_at (SuggestFees (rpc_reward ?r)) 15
                   = Some (- 9223372036854775808)"
    by (simp add: maxPriorityFee_at_def)
  with reward_returns(1) [of ?r] show ?thesis by simp
qed

text \<open>
  C8 (amended).  For every history whose reward values are all below \<open>2\<^sup>6\<^sup>3\<close> wei (base fees
  and rewards are non-negative by their type), every ladder entry emitted by \<^verbatim>\<open>SuggestFees\<close>
  satisfies \<open>0 \<le> maxPriorityFeePerGas \<le> maxFeePerGas\<close>.  The sums are rounded to 53 bits; rounding
  is monotone and leaves the tip alone, so the order is kept.
\<close>

theorem C8_priority_fee_within_max_fee:
  assumes "\<forall>bc nb fh. rpc bc nb (Some [10]) = Inr fh \<longrightarrow>
             (\<forall>row\<in>set (Reward fh). \<forall>r\<in>set row. r < 2 ^ 63)"
    and "SuggestFees rpc = Inr out"
    and "t \<le> 15"
  shows "\<exists>e. out ! t = Some e \<and> 0 \<le> MaxPriorityFeePerGas e
     \<and> MaxPriorityFeePerGas e \<le> MaxFeePerGas e"
proof -
  from SuggestFees_unfold [OF assms(2)] obtain h B tip where
    rpc: "rpc 100 Latest None = Inr h" and wb: "working_baseFees h = Inr B"
    and tip: "suggestTip rpc (OldestBlock h) (GasUsedRatio h) = Inr tip"
    by blast
  have small: "tip < 2 ^ 63"
    using suggestTip_value [OF tip] assms(1) by auto
  have "t < 16" using assms(3) by simp
  from SuggestFees_entries(2) [OF rpc wb tip assms(2) this]
  obtain bf where e: "out ! t = Some (ladder_entry (float64_of_int (Int64 tip))
                          (maxBaseFee_after B (sorted_order B) (15 - t)) bf)"
    by blast
  have nn: "0 \<le> float64_of_int (Int64 tip)"
    using Int64_small [OF small] by (simp add: float64_of_int_nonneg)
  have rd: "round53 (float64_of_int (Int64 tip)) = float64_of_int (Int64 tip)"
    using Int64_small [OF small] by (intro float64_of_int_round53) simp
  from ladder_entry_bounds [OF nn rd maxBaseFee_after_nonneg] e show ?thesis
    by blast
qed

theorem C8_priority_fee_within_max_fee_witness:
  "(7::nat) < 2 ^ 63 \<and> (3::nat) \<le> 15
   \<and> (\<exists>out. SuggestFees (rpc_reward 7) = Inr out
         \<and> (\<exists>e. out ! 3 = Some e \<and> 0 \<le> MaxPriorityFeePerGas e
               \<and> MaxPriorityFeePerGas e \<le> MaxFeePerGas e))"
proof -
  from reward_returns(3) obtain out where out: "SuggestFees (rpc_reward 7) = Inr out" by blast
  have below: "\<forall>bc nb fh. rpc_reward 7 bc nb (Some [10]) = Inr fh \<longrightarrow>
             (\<forall>row\<in>set (Reward fh). \<forall>r\<in>set row. r < 2 ^ 63)"
    by (auto simp: rpc_reward_def)
  have le: "(3::nat) \<le> 15" by simp
  from C8_priority_fee_within_max_fee [OF below out le] out show ?thesis by auto
qed

text \<open>
  C9 (as stated, refuted).  A history with base fees 8, 8 wei, gas ratio 0.5 and the reward
  \<open>2\<^sup>5\<^sup>3 + 1\<close> wei has the tip \<open>2\<^sup>5\<^sup>3 + 1\<close>.  At time factor 14 the projected base fee is 8 and
  the running maximum is 8, so the entry is a dip entry, with a dip of 0.  The emitted
  \<^verbatim>\<open>maxPriorityFeePerGas\<close> is \<open>2\<^sup>5\<^sup>3\<close>, which is not the tip plus 0.25 times the dip: the loop
  reads the tip as \<^verbatim>\<open>float64(tip.Int64())\<close>.
\<close>

theorem C9_tip_narrowed:
  "rpc_reward (2 ^ 53 + 1) 100 Latest None
     = Inr \<lparr>OldestBlock = 0, Reward = [[2 ^ 53 + 1]], BaseFee = [8, 8], GasUsedRatio = [1 / 2]\<rparr>
   \<and> working_baseFees \<lparr>OldestBlock = 0, Reward = [[2 ^ 53 + 1]], BaseFee = [8, 8],
        GasUsedRatio = [1 / 2]\<rparr> = Inr [8, 9]
   \<and> suggestTip (rpc_reward (2 ^ 53 + 1)) 0 [1 / 2] = Inr (2 ^ 53 + 1)
   \<and> suggestBaseFee [8, 9] (sorted_order [8, 9]) 14 = Inr 8
   \<and> maxBaseFee_after [8, 9] (sorted_order [8, 9]) (15 - 14) = 8
   \<and> maxPriorityFee_at (SuggestFees (rpc_reward (2 ^ 53 + 1))) 14 = Some (2 ^ 53)
   \<and> (2 ^ 53 :: real) \<noteq> real (2 ^ 53 + 1) + 0.25 * (8 - 8)"
proof -
  let ?r = "9007199254740993 :: nat"
  from reward_returns(3) obtain out where out: "SuggestFees (rpc_reward ?r) = Inr out" by blast
  have "\<exists>bf. suggestBaseFee [8, 9] (sorted_order [8, 9]) (real 14) = Inr bf
          \<and> out ! 14 = Some (ladder_entry (float64_of_int (Int64 ?r))
                               (maxBaseFee_after [8, 9] (sorted_order [8, 9]) (15 - 14)) bf)"
    by (rule SuggestFees_entries(2) [OF reward_returns(1) working_reward reward_returns(2) out])
      simp
  then have e: "out ! 14 = Some (ladder_entry 9007199254740992 8 8)"
    unfolding sorted_order_reward Int64_two_to_53_plus_1
    by (simp add: reward_projection_14 reward_projection_15)
  have "MaxPriorityFeePerGas (ladder_entry 9007199254740992 8 8) = 9007199254740992"
    by (simp add: ladder_entry_def dip_tip_def round53_zero round53_numeral)
  with e out have "maxPriorityFee_at (SuggestFees (rpc_reward ?r)) 14 = Some 9007199254740992"
    by (simp add: maxPriorityFee_at_def)
  with reward_returns(1) [of ?r] working_reward [of ?r] suggestTip_reward [of ?r]
  show ?thesis
    by (simp add: sorted_order_reward reward_projection_14 reward_projection_15)
qed

text \<open>
  C9 (amended).  At every time factor \<open>t\<close> where the projected base fee \<open>bf\<close> does not exceed
  the running maximum \<^verbatim>\<open>maxBaseFee\<close>, the emitted \<^verbatim>\<open>maxPriorityFeePerGas\<close> is the tip as the loop
  reads it, \<^verbatim>\<open>float64(tip.Int64())\<close>, plus 0.25 times \<open>maxBaseFee - bf\<close>, and the emitted
  \<^verbatim>\<open>maxFeePerGas\<close> is \<^verbatim>\<open>maxBaseFee\<close> plus that priority fee, where the difference, the product
  and the two sums are each rounded to 53 bits.  The tip as the loop reads it is the tip
  itself when the tip is at most \<open>2\<^sup>5\<^sup>3\<close> wei.
\<close>

theorem C9_dip_entry:
  assumes "rpc 100 Latest None = Inr h" and "working_baseFees h = Inr B"
    and "suggestTip rpc (OldestBlock h) (GasUsedRatio h) = Inr tip"
    and "SuggestFees rpc = Inr out"
    and "t \<le> 15"
    and "suggestBaseFee B (sorted_order B) (real t) = Inr bf"
    and "bf \<le> maxBaseFee_after B (sorted_order B) (15 - t)"
  shows "(\<exists>e. out ! t = Some e
     \<and> MaxPriorityFeePerGas e
         = round53 (float64_of_int (Int64 tip)
             + round53 (round53 (maxBaseFee_after B (sorted_order B) (15 - t) - bf) * 0.25))
     \<and> MaxFeePerGas e
         = round53 (maxBaseFee_after B (sorted_order B) (15 - t) + MaxPriorityFeePerGas e))
     \<and> (tip \<le> 2 ^ 53 \<longrightarrow> float64_of_int (Int64 tip) = real tip)"
proof
  have "t < 16" using assms(5) by simp
  from SuggestFees_entries(2) [OF assms(1-4) this] assms(6)
  have "out ! t = Some (ladder_entry (float64_of_int (Int64 tip))
                          (maxBaseFee_after B (sorted_order B) (15 - t)) bf)"
    by simp
  with assms(7) show "\<exists>e. out ! t = Some e
     \<and> MaxPriorityFeePerGas e
         = round53 (float64_of_int (Int64 tip)
             + round53 (round53 (maxBaseFee_after B (sorted_order B) (15 - t) - bf) * 0.25))
     \<and> MaxFeePerGas e
         = round53 (maxBaseFee_after B (sorted_order B) (15 - t) + MaxPriorityFeePerGas e)"
    by (simp add: ladder_entry_def dip_tip_def extraTipRatio_def)
next
  show "tip \<le> 2 ^ 53 \<longrightarrow> float64_of_int (Int64 tip) = real tip"
  proof
    assume le: "tip \<le> 2 ^ 53"
    then have "tip < 2 ^ 63" by (rule le_less_trans) simp
    then have "Int64 tip = int tip" by (rule Int64_small)
    then show "float64_of_int (Int64 tip) = real tip"
      using le by (simp add: float64_of_int_def float64_upto_two_to_53)
  qed
qed

theorem C9_dip_entry_witness:
  "\<exists>out bf.
     rpc_jump 100 Latest None
       = Inr \<lparr>OldestBlock = 0, Reward = [], BaseFee = [1000, 9000, 8000],
              GasUsedRatio = [1 / 20, 1 / 20]\<rparr>
     \<and> working_baseFees \<lparr>OldestBlock = 0, Reward = [], BaseFee = [1000, 9000, 8000],
              GasUsedRatio = [1 / 20, 1 / 20]\<rparr> = Inr [1000, 9000, 9000]
     \<and> suggestTip rpc_jump 0 [1 / 20, 1 / 20] = Inr 5000000000
     \<and> SuggestFees rpc_jump = Inr out
     \<and> (2::nat) \<le> 15
     \<and> suggestBaseFee [1000, 9000, 9000] (sorted_order [1000, 9000, 9000]) (real 2) = Inr bf
     \<and> bf \<le> maxBaseFee_after [1000, 9000, 9000] (sorted_order [1000, 9000, 9000]) (15 - 2)
     \<and> (\<exists>e. out ! 2 = Some e
           \<and> MaxPriorityFeePerGas e
               = round53 (float64_of_int (Int64 5000000000)
                   + round53 (round53 (maxBaseFee_after [1000, 9000, 9000]
                                 (sorted_order [1000, 9000, 9000]) (15 - 2) - bf) * 0.25))
           \<and> MaxFeePerGas e
               = round53 (maxBaseFee_after [1000, 9000, 9000]
                            (sorted_order [1000, 9000, 9000]) (15 - 2)
                          + MaxPriorityFeePerGas e))
     \<and> (5000000000::nat) \<le> 2 ^ 53
     \<and> float64_of_int (Int64 5000000000) = real 5000000000"
proof -
  from jump_returns(3) obtain out where out: "SuggestFees rpc_jump = Inr out" by blast
  obtain bf where bf: "suggestBaseFee [1000, 9000, 9000] [0, 1, 2] (real 2) = Inr bf"
      "bf \<le> 5000"
    using jump_factor_2 by auto
  have bf': "suggestBaseFee [1000, 9000, 9000] (sorted_order [1000, 9000, 9000]) (real 2) = Inr bf"
    using bf(1) by (simp only: sorted_order_jump)
  have dip: "bf \<le> maxBaseFee_after [1000, 9000, 9000] (sorted_order [1000, 9000, 9000]) (15 - 2)"
    using bf(2) jump_running_max by (simp add: sorted_order_jump)
  have le: "(2::nat) \<le> 15" by simp
  from C9_dip_entry [OF jump_returns(1) working_jump jump_returns(2) out le bf' dip]
    jump_returns(1) working_jump suggestTip_jump out bf' dip
  show ?thesis by auto
qed

end
